theory Spec2Isabelle
  imports Main "HOL-Library.Word" "HOL-Library.AList"
begin

section \<open>JavaScript strings\<close>

text \<open>
  A JavaScript string is a finite sequence of UTF-16 code units. \<^verbatim>\<open>text.length\<close>,
  \<^verbatim>\<open>text[i]\<close> and \<^verbatim>\<open>s.repeat(n)\<close> work on code units, while
  \<^verbatim>\<open>for (const char of text)\<close> walks the string by code points: a high surrogate
  that is followed by a low surrogate is handed out together with it as one two-unit
  string, every other code unit as a one-unit string.

  Numbers are modelled as unbounded naturals and strings as unbounded lists: the limits
  of an engine (the maximal string length, the exactness of integers up to \<open>2^53\<close>) are
  outside the model.
\<close>

type_synonym jschar = "16 word"
type_synonym jsstring = "jschar list"

definition str :: "string \<Rightarrow> jsstring" where
  \<comment> \<open>an ASCII literal as a JavaScript string\<close>
  "str s = map of_char s"

definition isHighSurrogate :: "jschar \<Rightarrow> bool" where
  "isHighSurrogate u \<longleftrightarrow> 0xD800 \<le> u \<and> u \<le> 0xDBFF"

definition isLowSurrogate :: "jschar \<Rightarrow> bool" where
  "isLowSurrogate u \<longleftrightarrow> 0xDC00 \<le> u \<and> u \<le> 0xDFFF"

fun codePoints :: "jsstring \<Rightarrow> jsstring list" where
  \<comment> \<open>the strings that \<^verbatim>\<open>for (const char of text)\<close> binds to \<^verbatim>\<open>char\<close>, in order\<close>
  "codePoints [] = []"
| "codePoints [u] = [[u]]"
| "codePoints (h # l # rest) =
     (if isHighSurrogate h \<and> isLowSurrogate l then [h, l] # codePoints rest
      else [h] # codePoints (l # rest))"

definition charAt0 :: "jsstring \<Rightarrow> jsstring" where
  \<comment> \<open>\<^verbatim>\<open>s[0]\<close> as it is appended to a string: the first code unit, and
      \<^verbatim>\<open>undefined\<close> (rendered as text) when \<^verbatim>\<open>s\<close> is empty\<close>
  "charAt0 s = (case s of [] \<Rightarrow> str ''undefined'' | c # _ \<Rightarrow> [c])"

definition isDigit :: "jschar \<Rightarrow> bool" where
  \<comment> \<open>\<^verbatim>\<open>/\d/.test(char)\<close>: the ASCII digits only\<close>
  "isDigit c \<longleftrightarrow> 0x30 \<le> c \<and> c \<le> 0x39"

definition digitChar :: "nat \<Rightarrow> jschar" where
  "digitChar d = word_of_nat (48 + d)"

definition digitVal :: "jschar \<Rightarrow> nat" where
  "digitVal c = unat c - 48"

fun toString :: "nat \<Rightarrow> jsstring" where
  \<comment> \<open>\<^verbatim>\<open>n.toString()\<close> of a non-negative integer: its decimal digits\<close>
  "toString n =
     (if n < 10 then [digitChar n] else toString (n div 10) @ [digitChar (n mod 10)])"

declare toString.simps [simp del]

definition digitsValue :: "jsstring \<Rightarrow> nat" where
  "digitsValue ds = foldl (\<lambda>a c. 10 * a + digitVal c) 0 ds"

definition parseInt :: "jsstring \<Rightarrow> nat option" where
  \<comment> \<open>\<^verbatim>\<open>parseInt(s, 10)\<close> on the strings the count buffer can hold: the value of the
      longest prefix of digits, and \<^verbatim>\<open>NaN\<close> (\<open>None\<close>) when there is none. Leading
      white space and a sign, which \<^verbatim>\<open>parseInt\<close> also accepts, never reach the buffer.\<close>
  "parseInt s =
     (let ds = takeWhile isDigit s in if ds = [] then None else Some (digitsValue ds))"

text \<open>
  A \<^verbatim>\<open>throw\<close> is a value \<open>Inl e\<close> of the result type \<open>error + 'a\<close>: the two errors of
  \<^verbatim>\<open>RLECompression.decompress\<close>, the two of \<^verbatim>\<open>LZWCompression.decompress\<close>, the
  \<^verbatim>\<open>SyntaxError\<close> of \<^verbatim>\<open>JSON.parse\<close>, and the \<^verbatim>\<open>TypeError\<close> of reading a
  property of \<^verbatim>\<open>undefined\<close>.
\<close>

datatype error =
    BadRepeatCount
  | EndsWithNumber
  | FirstCodeNotInDictionary
  | CodeOutOfBounds
  | JsonSyntaxError
  | TypeError


section \<open>Run-length encoding (\<^verbatim>\<open>rle.ts\<close>)\<close>

definition run :: "nat \<Rightarrow> jschar \<Rightarrow> jsstring" where
  \<comment> \<open>\<^verbatim>\<open>(count > 1 ? count.toString() : "") + currentChar\<close>\<close>
  "run count currentChar = (if count > 1 then toString count else []) @ [currentChar]"

fun RLE_compress_loop :: "jsstring \<Rightarrow> jsstring \<Rightarrow> nat \<Rightarrow> jschar \<Rightarrow> jsstring" where
  \<comment> \<open>the \<^verbatim>\<open>for\<close> loop over the code units from index 1 on, and the append of the
      last run after it\<close>
  "RLE_compress_loop [] result count currentChar = result @ run count currentChar"
| "RLE_compress_loop (c # rest) result count currentChar =
     (if c = currentChar then RLE_compress_loop rest result (count + 1) currentChar
      else RLE_compress_loop rest (result @ run count currentChar) 1 c)"

definition RLE_compress :: "jsstring \<Rightarrow> jsstring" where
  "RLE_compress text =
     (case text of [] \<Rightarrow> [] | c # rest \<Rightarrow> RLE_compress_loop rest [] 1 c)"

fun RLE_decompress_loop :: "jsstring \<Rightarrow> jsstring \<Rightarrow> jsstring \<Rightarrow> error + jsstring" where
  \<comment> \<open>the \<^verbatim>\<open>for\<close> loop over the compressed string, and the check after it; a
      \<^verbatim>\<open>throw\<close> is \<open>Inl\<close>. A parsed count is never negative.\<close>
  "RLE_decompress_loop [] result countBuffer =
     (if countBuffer \<noteq> [] then Inl EndsWithNumber else Inr result)"
| "RLE_decompress_loop (char # rest) result countBuffer =
     (if isDigit char then RLE_decompress_loop rest result (countBuffer @ [char])
      else
        (case (if countBuffer \<noteq> [] then parseInt countBuffer else Some 1) of
           None \<Rightarrow> Inl BadRepeatCount
         | Some repeatCount \<Rightarrow>
             RLE_decompress_loop rest (result @ replicate repeatCount char) []))"

definition RLE_decompress :: "jsstring \<Rightarrow> error + jsstring" where
  "RLE_decompress compressed =
     (if compressed = [] then Inr [] else RLE_decompress_loop compressed [] [])"



section \<open>LZW (\<^verbatim>\<open>lzw.ts\<close>)\<close>

subsection \<open>Compression\<close>

definition initialDictionary :: "jsstring \<rightharpoonup> nat" where
  \<comment> \<open>\<^verbatim>\<open>for (let i = 0; i < 256; i++) dictionary.set(String.fromCharCode(i), i)\<close>\<close>
  "initialDictionary = fold (\<lambda>i d. d([word_of_nat i] \<mapsto> i)) [0..<256] Map.empty"

text \<open>
  The loop \<^verbatim>\<open>for (const char of text)\<close> of \<^verbatim>\<open>compress\<close>, as a function of the code points
  still to read and of the four variables it changes. \<^verbatim>\<open>dictionary.get(currentPhrase)!\<close>
  is pushed as it is: \<open>None\<close> is the \<^verbatim>\<open>undefined\<close> that a lookup of an absent phrase
  returns (the non-null assertion is erased by the compiler and checks nothing).
\<close>

fun LZW_compress_loop ::
  "jsstring list \<Rightarrow> (jsstring \<rightharpoonup> nat) \<Rightarrow> nat \<Rightarrow> nat option list \<Rightarrow> jsstring \<Rightarrow>
     (jsstring \<rightharpoonup> nat) \<times> nat \<times> nat option list \<times> jsstring" where
  "LZW_compress_loop [] dictionary dictSize result currentPhrase =
     (dictionary, dictSize, result, currentPhrase)"
| "LZW_compress_loop (char # rest) dictionary dictSize result currentPhrase =
     (let newPhrase = currentPhrase @ char in
      if dictionary newPhrase \<noteq> None
      then LZW_compress_loop rest dictionary dictSize result newPhrase
      else LZW_compress_loop rest (dictionary(newPhrase \<mapsto> dictSize)) (dictSize + 1)
             (result @ [dictionary currentPhrase]) char)"

definition LZW_compress_codes :: "jsstring \<Rightarrow> nat option list" where
  \<comment> \<open>the array \<^verbatim>\<open>result\<close> after the loop and the push of the pending phrase\<close>
  "LZW_compress_codes text =
     (case LZW_compress_loop (codePoints text) initialDictionary 256 [] [] of
        (dictionary, dictSize, result, currentPhrase) \<Rightarrow>
          if currentPhrase \<noteq> [] then result @ [dictionary currentPhrase] else result)"

definition comma :: jschar where
  "comma = 0x2C"

definition render :: "nat option \<Rightarrow> jsstring" where
  \<comment> \<open>an element of the array as \<^verbatim>\<open>join\<close> writes it: \<^verbatim>\<open>undefined\<close> as the empty string\<close>
  "render x = (case x of None \<Rightarrow> [] | Some n \<Rightarrow> toString n)"

fun joinCodes :: "nat option list \<Rightarrow> jsstring" where
  \<comment> \<open>\<^verbatim>\<open>result.join(",")\<close>\<close>
  "joinCodes [] = []"
| "joinCodes [x] = render x"
| "joinCodes (x # y # ys) = render x @ comma # joinCodes (y # ys)"

definition LZW_compress :: "jsstring \<Rightarrow> jsstring" where
  "LZW_compress text = (if text = [] then [] else joinCodes (LZW_compress_codes text))"

subsection \<open>Decompression\<close>

text \<open>
  The numbers that \<^verbatim>\<open>compressed.split(",").map(Number)\<close> can hold. The decoder only asks
  whether a number is a key of its dictionary, whose keys are \<open>0, 1, \<dots>, dictSize - 1\<close>, or
  is equal to \<^verbatim>\<open>dictSize\<close>: \<open>Other\<close> stands for every number that is not a non-negative
  integer (\<^verbatim>\<open>NaN\<close>, a negative number, a fraction, an infinity), which is neither.
\<close>

datatype number = Code nat | Other

fun split :: "jschar \<Rightarrow> jsstring \<Rightarrow> jsstring list" where
  \<comment> \<open>\<^verbatim>\<open>s.split(sep)\<close> for a separator of one code unit\<close>
  "split sep [] = [[]]"
| "split sep (c # cs) =
     (if c = sep then [] # split sep cs
      else (case split sep cs of [] \<Rightarrow> [[c]] | p # ps \<Rightarrow> (c # p) # ps))"

definition Number :: "jsstring \<Rightarrow> number" where
  \<comment> \<open>\<^verbatim>\<open>Number(s)\<close> on the pieces of a string that \<^verbatim>\<open>compress\<close> can return: the empty
      string is 0, a string of decimal digits is its value. This is what JavaScript
      computes on these pieces only. The other strings that \<^verbatim>\<open>Number\<close> reads as a number
      (with white space, a sign, a fraction, an exponent, a radix prefix) are not
      modelled: the value \<open>Other\<close> given to them here says nothing about the code, and
      every statement about \<^verbatim>\<open>decompress\<close> on a string is restricted to \<open>digitPieces\<close>.\<close>
  "Number s =
     (if s = [] then Code 0
      else if list_all isDigit s then Code (digitsValue s)
      else Other)"

definition digitPieces :: "jsstring \<Rightarrow> bool" where
  \<comment> \<open>the strings on which the model of \<^verbatim>\<open>split(",").map(Number)\<close> is exact: every piece
      between the commas is empty or consists of decimal digits\<close>
  "digitPieces s = list_all (list_all isDigit) (split comma s)"

definition initialPhrases :: "nat \<rightharpoonup> jsstring" where
  \<comment> \<open>\<^verbatim>\<open>for (let i = 0; i < 256; i++) dictionary.set(i, String.fromCharCode(i))\<close>\<close>
  "initialPhrases = fold (\<lambda>i d. d(i \<mapsto> [word_of_nat i])) [0..<256] Map.empty"

definition phraseOf :: "(nat \<rightharpoonup> jsstring) \<Rightarrow> number \<Rightarrow> jsstring option" where
  \<comment> \<open>\<^verbatim>\<open>dictionary.has(code)\<close> and \<^verbatim>\<open>dictionary.get(code)\<close> in one\<close>
  "phraseOf dictionary code = (case code of Code k \<Rightarrow> dictionary k | Other \<Rightarrow> None)"

type_synonym LZW_decoder = "(nat \<rightharpoonup> jsstring) \<times> nat \<times> jsstring \<times> jsstring"

text \<open>
  The loop over the codes from index 1 on, as a function of the codes still to read and
  of \<^verbatim>\<open>dictionary\<close>, \<^verbatim>\<open>dictSize\<close>, \<^verbatim>\<open>result\<close> and \<^verbatim>\<open>prevPhrase\<close>. It returns all four, so
  that the state after a prefix of the codes can be named.
\<close>

fun LZW_decompress_loop ::
  "number list \<Rightarrow> (nat \<rightharpoonup> jsstring) \<Rightarrow> nat \<Rightarrow> jsstring \<Rightarrow> jsstring \<Rightarrow> error + LZW_decoder" where
  "LZW_decompress_loop [] dictionary dictSize result prevPhrase =
     Inr (dictionary, dictSize, result, prevPhrase)"
| "LZW_decompress_loop (currentCode # rest) dictionary dictSize result prevPhrase =
     (case phraseOf dictionary currentCode of
        Some entry \<Rightarrow>
          LZW_decompress_loop rest (dictionary(dictSize \<mapsto> prevPhrase @ charAt0 entry))
            (dictSize + 1) (result @ entry) entry
      | None \<Rightarrow>
          if currentCode = Code dictSize
          then (let entry = prevPhrase @ charAt0 prevPhrase in
            LZW_decompress_loop rest (dictionary(dictSize \<mapsto> prevPhrase @ charAt0 entry))
              (dictSize + 1) (result @ entry) entry)
          else Inl CodeOutOfBounds)"

definition LZW_decompress_codes :: "number list \<Rightarrow> error + LZW_decoder" where
  \<comment> \<open>\<^verbatim>\<open>decompress\<close> from the array \<^verbatim>\<open>codes\<close> on; \<^verbatim>\<open>codes[0]\<close> of an empty array is
      \<^verbatim>\<open>undefined\<close>, which is no key of the dictionary\<close>
  "LZW_decompress_codes codes =
     (case codes of
        [] \<Rightarrow> Inl FirstCodeNotInDictionary
      | firstCode # rest \<Rightarrow>
          (case phraseOf initialPhrases firstCode of
             None \<Rightarrow> Inl FirstCodeNotInDictionary
           | Some prevPhrase \<Rightarrow>
               LZW_decompress_loop rest initialPhrases 256 prevPhrase prevPhrase))"

definition LZW_decompress :: "jsstring \<Rightarrow> error + jsstring" where
  "LZW_decompress compressed =
     (if compressed = [] then Inr []
      else
        (case LZW_decompress_codes (map Number (split comma compressed)) of
           Inl e \<Rightarrow> Inl e
         | Inr (dictionary, dictSize, result, prevPhrase) \<Rightarrow> Inr result))"


section \<open>Huffman coding (\<^verbatim>\<open>huffman.ts\<close>)\<close>

subsection \<open>Nodes and their serialisation\<close>

text \<open>
  The interface \<^verbatim>\<open>HuffmanNode\<close>: \<^verbatim>\<open>char\<close>, \<^verbatim>\<open>left\<close> and \<^verbatim>\<open>right\<close> are optional, so a
  parsed tree may have a node with one child only, or with a character and children.
\<close>

datatype HuffmanNode =
  HuffmanNode (char: "jsstring option") (freq: nat)
    (left: "HuffmanNode option") (right: "HuffmanNode option")

text \<open>
  The tree travels as a string. \<^verbatim>\<open>JSON.stringify\<close> and \<^verbatim>\<open>JSON.parse\<close> belong to the
  language, not to the repository: the model keeps what the code relies on. A tree
  string is the empty string (what \<^verbatim>\<open>compress\<close> returns for an empty text; falsy, like
  an absent argument), the JSON text of a node, which \<^verbatim>\<open>JSON.parse\<close> reads back as the same
  node, or a string that is no JSON text, on which \<^verbatim>\<open>JSON.parse\<close> throws. JSON texts of
  values that are not nodes are outside the model.
\<close>

datatype treeString = EmptyString | Json HuffmanNode | NotJson

definition JSON_stringify :: "HuffmanNode \<Rightarrow> treeString" where
  "JSON_stringify node = Json node"

definition JSON_parse :: "treeString \<Rightarrow> error + HuffmanNode" where
  "JSON_parse s = (case s of Json node \<Rightarrow> Inr node | _ \<Rightarrow> Inl JsonSyntaxError)"

subsection \<open>The min-heap\<close>

text \<open>
  The class \<^verbatim>\<open>MinHeap<T>\<close>: the array \<^verbatim>\<open>heap\<close> is a list, each method takes it and the
  comparator and returns the new array. Every index read below is inside the array:
  \<^verbatim>\<open>bubbleUp\<close> starts at the last index, \<^verbatim>\<open>bubbleDown\<close> reads a child only after
  comparing its index with \<^verbatim>\<open>lastIndex\<close>.
\<close>

definition swap :: "'a list \<Rightarrow> nat \<Rightarrow> nat \<Rightarrow> 'a list" where
  \<comment> \<open>\<^verbatim>\<open>[heap[i], heap[j]] = [heap[j], heap[i]]\<close>\<close>
  "swap heap i j = heap[i := heap ! j, j := heap ! i]"

function bubbleUp :: "('a \<Rightarrow> 'a \<Rightarrow> int) \<Rightarrow> 'a list \<Rightarrow> nat \<Rightarrow> 'a list" where
  "bubbleUp comparator heap index =
     (if index > 0 then
        (let parentIndex = (index - 1) div 2 in
         if comparator (heap ! index) (heap ! parentIndex) < 0
         then bubbleUp comparator (swap heap index parentIndex) parentIndex
         else heap)
      else heap)"
  by pat_completeness auto
termination
  by (relation "measure (\<lambda>(comparator, heap, index). index)") auto

declare bubbleUp.simps [simp del]

definition smallestOf :: "('a \<Rightarrow> 'a \<Rightarrow> int) \<Rightarrow> 'a list \<Rightarrow> nat \<Rightarrow> nat" where
  \<comment> \<open>\<^verbatim>\<open>smallestIndex\<close> after the two comparisons in the body of \<^verbatim>\<open>bubbleDown\<close>'s loop.
      \<^verbatim>\<open>lastIndex\<close> is \<open>-1\<close> for an empty array and 0 here; the child indices are at
      least 1, so the comparisons with it agree.\<close>
  "smallestOf comparator heap index =
     (let lastIndex = length heap - 1;
          leftChildIndex = 2 * index + 1;
          rightChildIndex = 2 * index + 2;
          smallestIndex =
            (if leftChildIndex \<le> lastIndex \<and>
                comparator (heap ! leftChildIndex) (heap ! index) < 0
             then leftChildIndex else index)
      in if rightChildIndex \<le> lastIndex \<and>
            comparator (heap ! rightChildIndex) (heap ! smallestIndex) < 0
         then rightChildIndex else smallestIndex)"

lemma smallestOf_range:
  "smallestOf comparator heap index \<noteq> index \<Longrightarrow>
   index < smallestOf comparator heap index \<and> smallestOf comparator heap index < length heap"
  by (auto simp: smallestOf_def Let_def split: if_splits)

function bubbleDown :: "('a \<Rightarrow> 'a \<Rightarrow> int) \<Rightarrow> 'a list \<Rightarrow> nat \<Rightarrow> 'a list" where
  "bubbleDown comparator heap index =
     (let smallestIndex = smallestOf comparator heap index in
      if smallestIndex \<noteq> index
      then bubbleDown comparator (swap heap index smallestIndex) smallestIndex
      else heap)"
  by pat_completeness auto
termination
proof (relation "measure (\<lambda>(comparator, heap, index). length heap - index)")
  show "wf (measure (\<lambda>(comparator :: 'a \<Rightarrow> 'a \<Rightarrow> int, heap, index). length heap - index))"
    by simp
next
  fix comparator :: "'a \<Rightarrow> 'a \<Rightarrow> int" and heap :: "'a list" and index smallestIndex :: nat
  assume "smallestIndex = smallestOf comparator heap index" and "smallestIndex \<noteq> index"
  then have "index < smallestIndex \<and> smallestIndex < length heap"
    using smallestOf_range [of comparator heap index] by simp
  then show "((comparator, swap heap index smallestIndex, smallestIndex), comparator, heap, index)
       \<in> measure (\<lambda>(comparator, heap, index). length heap - index)"
    by (auto simp: swap_def)
qed

declare bubbleDown.simps [simp del]

definition insert_heap :: "('a \<Rightarrow> 'a \<Rightarrow> int) \<Rightarrow> 'a list \<Rightarrow> 'a \<Rightarrow> 'a list" where
  \<comment> \<open>\<^verbatim>\<open>insert(item)\<close>: push, then \<^verbatim>\<open>bubbleUp\<close> from the last index\<close>
  "insert_heap comparator heap item = bubbleUp comparator (heap @ [item]) (length heap)"

definition extractMin :: "('a \<Rightarrow> 'a \<Rightarrow> int) \<Rightarrow> 'a list \<Rightarrow> 'a option \<times> 'a list" where
  \<comment> \<open>the value returned (\<open>None\<close> is \<^verbatim>\<open>undefined\<close>) and the array after the call\<close>
  "extractMin comparator heap =
     (if heap = [] then (None, heap)
      else if length heap = 1 then (Some (last heap), butlast heap)
      else (Some (heap ! 0), bubbleDown comparator ((butlast heap)[0 := last heap]) 0))"

lemma length_swap [simp]: "length (swap heap i j) = length heap"
  by (simp add: swap_def)

lemma length_bubbleUp [simp]: "length (bubbleUp comparator heap index) = length heap"
proof (induction comparator heap index rule: bubbleUp.induct)
  case (1 comparator heap index)
  then show ?case
    by (subst bubbleUp.simps) (simp add: Let_def)
qed

lemma length_bubbleDown [simp]: "length (bubbleDown comparator heap index) = length heap"
proof (induction comparator heap index rule: bubbleDown.induct)
  case (1 comparator heap index)
  then show ?case
    by (subst bubbleDown.simps) (simp add: Let_def)
qed

lemma length_insert_heap [simp]:
  "length (insert_heap comparator heap item) = length heap + 1"
  by (simp add: insert_heap_def)

lemma length_extractMin:
  "heap \<noteq> [] \<Longrightarrow> length (snd (extractMin comparator heap)) = length heap - 1"
  by (simp add: extractMin_def)

lemma extractMin_twice_length:
  assumes "Suc 0 < length minHeap"
    and "(a, heap1) = extractMin comparator minHeap"
    and "(b, heap2) = extractMin comparator heap1"
  shows "Suc (length heap2) < length minHeap"
proof -
  have ne: "minHeap \<noteq> []" using assms(1) by auto
  have h1: "length heap1 = length minHeap - 1"
    using length_extractMin [OF ne, of comparator] assms(2) [symmetric] by simp
  then have "heap1 \<noteq> []" using assms(1) by auto
  then have "length heap2 = length heap1 - 1"
    using length_extractMin [of heap1 comparator] assms(3) [symmetric] by simp
  then show ?thesis using h1 assms(1) by simp
qed

subsection \<open>Building the tree\<close>

definition buildFrequencyMap :: "jsstring \<Rightarrow> (jsstring \<times> nat) list" where
  \<comment> \<open>a \<^verbatim>\<open>Map\<close> keeps its keys in the order of their first insertion: the association
      list, with \<^verbatim>\<open>set\<close> as \<open>AList.update\<close>\<close>
  "buildFrequencyMap text =
     fold (\<lambda>char freqMap.
             AList.update char
               ((case map_of freqMap char of None \<Rightarrow> 0 | Some n \<Rightarrow> n) + 1) freqMap)
       (codePoints text) []"

definition compareFreq :: "HuffmanNode \<Rightarrow> HuffmanNode \<Rightarrow> int" where
  \<comment> \<open>\<^verbatim>\<open>(a, b) => a.freq - b.freq\<close>\<close>
  "compareFreq a b = int (freq a) - int (freq b)"

text \<open>
  The loop \<^verbatim>\<open>while (minHeap.size() > 1)\<close> of \<^verbatim>\<open>buildHuffmanTree\<close>. Reading \<^verbatim>\<open>.freq\<close> of an
  \<^verbatim>\<open>undefined\<close> that \<^verbatim>\<open>extractMin\<close> returned would throw a \<^verbatim>\<open>TypeError\<close>.
\<close>

function mergeLoop :: "HuffmanNode list \<Rightarrow> error + HuffmanNode list" where
  "mergeLoop minHeap =
     (if length minHeap > 1 then
        (case extractMin compareFreq minHeap of
           (None, _) \<Rightarrow> Inl TypeError
         | (Some leftNode, heap1) \<Rightarrow>
             (case extractMin compareFreq heap1 of
                (None, _) \<Rightarrow> Inl TypeError
              | (Some rightNode, heap2) \<Rightarrow>
                  mergeLoop (insert_heap compareFreq heap2
                    (HuffmanNode None (freq leftNode + freq rightNode)
                       (Some leftNode) (Some rightNode)))))
      else Inr minHeap)"
  by pat_completeness auto
termination
  by (relation "measure length") (auto intro: extractMin_twice_length)

declare mergeLoop.simps [simp del]

definition buildHuffmanTree :: "(jsstring \<times> nat) list \<Rightarrow> error + HuffmanNode option" where
  \<comment> \<open>the result \<open>None\<close> is \<^verbatim>\<open>null\<close>\<close>
  "buildHuffmanTree freqMap =
     (let minHeap =
            fold (\<lambda>(ch, fr) heap. insert_heap compareFreq heap (HuffmanNode (Some ch) fr None None))
              freqMap []
      in if length minHeap = 1 then
           (case fst (extractMin compareFreq minHeap) of
              None \<Rightarrow> Inl TypeError
            | Some node \<Rightarrow> Inr (Some node))
         else
           (case mergeLoop minHeap of
              Inl e \<Rightarrow> Inl e
            | Inr heap \<Rightarrow> Inr (fst (extractMin compareFreq heap))))"

subsection \<open>The encoding map\<close>

definition leafChar :: "HuffmanNode \<Rightarrow> jsstring option" where
  \<comment> \<open>the test \<^verbatim>\<open>node.char !== undefined && !node.left && !node.right\<close>, which the source
      writes three times: the character when it holds, \<open>None\<close> when it does not\<close>
  "leafChar node =
     (case char node of
        None \<Rightarrow> None
      | Some ch \<Rightarrow> if left node = None \<and> right node = None then Some ch else None)"

fun traverse ::
  "HuffmanNode \<Rightarrow> jsstring \<Rightarrow> (jsstring \<rightharpoonup> jsstring) \<Rightarrow> (jsstring \<rightharpoonup> jsstring)" where
  "traverse (HuffmanNode c f l r) code encodingMap =
     (case leafChar (HuffmanNode c f l r) of
        Some ch \<Rightarrow> encodingMap(ch \<mapsto> (if code = [] then str ''0'' else code))
      | None \<Rightarrow>
          (let m1 = (case l of
                       None \<Rightarrow> encodingMap
                     | Some leftNode \<Rightarrow> traverse leftNode (code @ str ''0'') encodingMap)
           in (case r of
                 None \<Rightarrow> m1
               | Some rightNode \<Rightarrow> traverse rightNode (code @ str ''1'') m1)))"

definition buildEncodingMap :: "HuffmanNode option \<Rightarrow> (jsstring \<rightharpoonup> jsstring)" where
  "buildEncodingMap root =
     (case root of None \<Rightarrow> Map.empty | Some node \<Rightarrow> traverse node [] Map.empty)"

subsection \<open>Decompression\<close>

definition malformed :: jsstring where
  \<comment> \<open>the string that \<^verbatim>\<open>decompress\<close> returns after \<^verbatim>\<open>console.error\<close>\<close>
  "malformed = str ''ERROR: Malformed data''"

definition requiredChild :: "HuffmanNode \<Rightarrow> jsstring \<Rightarrow> HuffmanNode option" where
  \<comment> \<open>the node to go to from \<^verbatim>\<open>currentNode\<close> on \<^verbatim>\<open>bit\<close>; \<open>None\<close> on each of the three
      branches that return the error string\<close>
  "requiredChild currentNode b =
     (if b = str ''0'' then left currentNode
      else if b = str ''1'' then right currentNode
      else None)"

fun Huffman_decompress_loop ::
  "jsstring list \<Rightarrow> HuffmanNode \<Rightarrow> HuffmanNode \<Rightarrow> jsstring \<Rightarrow> jsstring" where
  \<comment> \<open>the loop \<^verbatim>\<open>for (const bit of compressed)\<close> and the \<^verbatim>\<open>return result\<close> after it;
      \<open>root\<close> is the constant \<^verbatim>\<open>tree\<close>\<close>
  "Huffman_decompress_loop [] root currentNode result = result"
| "Huffman_decompress_loop (b # rest) root currentNode result =
     (case requiredChild currentNode b of
        None \<Rightarrow> malformed
      | Some node \<Rightarrow>
          (case leafChar node of
             Some ch \<Rightarrow> Huffman_decompress_loop rest root root (result @ ch)
           | None \<Rightarrow> Huffman_decompress_loop rest root node result))"

definition Huffman_decompress :: "jsstring \<Rightarrow> treeString \<Rightarrow> error + jsstring" where
  "Huffman_decompress compressed treeStr =
     (if compressed = [] \<or> treeStr = EmptyString then Inr []
      else
        (case JSON_parse treeStr of
           Inl e \<Rightarrow> Inl e
         | Inr root \<Rightarrow>
             (case leafChar root of
                Some ch \<Rightarrow> Inr (concat (replicate (length compressed) ch))
              | None \<Rightarrow> Inr (Huffman_decompress_loop (codePoints compressed) root root []))))"

subsection \<open>Compression\<close>

record HuffmanCompressionResult =
  compressed :: jsstring
  tree :: treeString
  originalCharForSingle :: "jsstring option"

definition encodeChar :: "(jsstring \<rightharpoonup> jsstring) \<Rightarrow> jsstring \<Rightarrow> jsstring" where
  \<comment> \<open>what \<^verbatim>\<open>compressed += encodingMap.get(char)\<close> appends\<close>
  "encodeChar encodingMap ch =
     (case encodingMap ch of None \<Rightarrow> str ''undefined'' | Some code \<Rightarrow> code)"

definition Huffman_compress :: "jsstring \<Rightarrow> error + HuffmanCompressionResult" where
  \<comment> \<open>a frequency map of size 1 is a list of one pair: its only key and the value
      stored under it\<close>
  "Huffman_compress text =
     (if text = [] then
        Inr \<lparr>compressed = [], tree = EmptyString, originalCharForSingle = None\<rparr>
      else
        (case buildFrequencyMap text of
           [(ch, fr)] \<Rightarrow>
             Inr \<lparr>compressed = replicate (length text) 0x30,
                  tree = JSON_stringify (HuffmanNode (Some ch) fr None None),
                  originalCharForSingle = Some ch\<rparr>
         | freqMap \<Rightarrow>
             (case buildHuffmanTree freqMap of
                Inl e \<Rightarrow> Inl e
              | Inr None \<Rightarrow>
                  Inr \<lparr>compressed = [], tree = EmptyString, originalCharForSingle = None\<rparr>
              | Inr (Some root) \<Rightarrow>
                  (let encodingMap = buildEncodingMap (Some root) in
                   Inr \<lparr>compressed = concat (map (encodeChar encodingMap) (codePoints text)),
                        tree = JSON_stringify root,
                        originalCharForSingle = None\<rparr>))))"


section \<open>Properties\<close>

subsection \<open>Decimal rendering and parsing\<close>

lemma unat_digitChar: "d < 10 \<Longrightarrow> unat (digitChar d) = 48 + d"
  unfolding digitChar_def by (rule of_nat_inverse [OF refl]) simp

lemma isDigit_digitChar: "d < 10 \<Longrightarrow> isDigit (digitChar d)"
  by (simp add: isDigit_def word_le_nat_alt unat_digitChar)

lemma digitVal_digitChar: "d < 10 \<Longrightarrow> digitVal (digitChar d) = d"
  by (simp add: digitVal_def unat_digitChar)

lemma toString_digits: "\<forall>c \<in> set (toString n). isDigit c"
proof (induction n rule: toString.induct)
  case (1 n)
  show ?case
  proof (cases "n < 10")
    case True
    then show ?thesis by (simp add: toString.simps [of n] isDigit_digitChar)
  next
    case False
    with 1 show ?thesis by (simp add: toString.simps [of n] isDigit_digitChar)
  qed
qed

lemma toString_nonempty: "toString n \<noteq> []"
  by (subst toString.simps) simp

lemma digitsValue_snoc: "digitsValue (ds @ [c]) = 10 * digitsValue ds + digitVal c"
  by (simp add: digitsValue_def)

lemma digitsValue_toString: "digitsValue (toString n) = n"
proof (induction n rule: toString.induct)
  case (1 n)
  show ?case
  proof (cases "n < 10")
    case True
    then show ?thesis
      by (simp add: toString.simps [of n] digitsValue_def digitVal_digitChar)
  next
    case False
    with 1 show ?thesis
      by (simp add: toString.simps [of n] digitsValue_snoc digitVal_digitChar)
  qed
qed

lemma takeWhile_toString: "takeWhile isDigit (toString n) = toString n"
  using toString_digits [of n] by (simp add: takeWhile_eq_all_conv)

lemma parseInt_toString: "parseInt (toString n) = Some n"
  unfolding parseInt_def Let_def takeWhile_toString
  by (simp only: toString_nonempty digitsValue_toString if_False)


subsection \<open>Round trip of run-length encoding\<close>

lemma RLE_decompress_loop_digits:
  "\<forall>c \<in> set ds. isDigit c \<Longrightarrow>
   RLE_decompress_loop (ds @ ys) result buf = RLE_decompress_loop ys result (buf @ ds)"
  by (induction ds arbitrary: buf) simp_all

lemma RLE_decompress_loop_run:
  assumes "\<not> isDigit c"
  shows "RLE_decompress_loop (run n c @ ys) result [] =
         RLE_decompress_loop ys (result @ replicate (if n > 1 then n else 1) c) []"
proof (cases "n > 1")
  case True
  have "RLE_decompress_loop (run n c @ ys) result [] =
        RLE_decompress_loop (c # ys) result (toString n)"
    using True toString_digits [of n]
    by (simp add: run_def RLE_decompress_loop_digits)
  also have "\<dots> = RLE_decompress_loop ys (result @ replicate n c) []"
    using assms by (simp add: toString_nonempty parseInt_toString)
  finally show ?thesis using True by simp
next
  case False
  then show ?thesis using assms by (simp add: run_def)
qed

lemma RLE_compress_loop_acc:
  "RLE_compress_loop rest result count c = result @ RLE_compress_loop rest [] count c"
proof (induction rest arbitrary: result count c)
  case Nil
  show ?case by simp
next
  case (Cons d rest)
  show ?case
  proof (cases "d = c")
    case True
    then show ?thesis using Cons.IH [of result "count + 1" c] by simp
  next
    case False
    then show ?thesis
      using Cons.IH [of "result @ run count c" 1 d] Cons.IH [of "run count c" 1 d]
      by simp
  qed
qed

lemma RLE_loops_inverse:
  assumes "\<not> isDigit c" and "\<forall>d \<in> set rest. \<not> isDigit d" and "count \<ge> 1"
  shows "RLE_decompress_loop (RLE_compress_loop rest [] count c) res [] =
         Inr (res @ replicate count c @ rest)"
  using assms
proof (induction rest arbitrary: res count c)
  case Nil
  have "RLE_decompress_loop (run count c @ []) res [] =
        RLE_decompress_loop [] (res @ replicate (if count > 1 then count else 1) c) []"
    using Nil.prems(1) by (rule RLE_decompress_loop_run)
  moreover have "(if count > 1 then count else 1) = count"
    using Nil.prems(3) by simp
  ultimately show ?case by simp
next
  case (Cons d rest)
  show ?case
  proof (cases "d = c")
    case True
    have "RLE_decompress_loop (RLE_compress_loop rest [] (count + 1) c) res [] =
          Inr (res @ replicate (count + 1) c @ rest)"
      using Cons.prems by (intro Cons.IH) simp_all
    then show ?thesis using True by (simp add: replicate_app_Cons_same)
  next
    case False
    have nd: "\<not> isDigit d" and rest: "\<forall>e \<in> set rest. \<not> isDigit e"
      using Cons.prems(2) by simp_all
    have cnt: "(if count > 1 then count else 1) = count"
      using Cons.prems(3) by simp
    have "RLE_compress_loop (d # rest) [] count c =
          run count c @ RLE_compress_loop rest [] 1 d"
      using False RLE_compress_loop_acc [of rest "run count c" 1 d] by simp
    then have "RLE_decompress_loop (RLE_compress_loop (d # rest) [] count c) res [] =
          RLE_decompress_loop (RLE_compress_loop rest [] 1 d) (res @ replicate count c) []"
      using RLE_decompress_loop_run [OF Cons.prems(1), of count _ res] cnt by simp
    also have "\<dots> = Inr ((res @ replicate count c) @ replicate 1 d @ rest)"
      using nd rest by (intro Cons.IH) simp_all
    finally show ?thesis by simp
  qed
qed

lemma RLE_compress_nonempty: "text \<noteq> [] \<Longrightarrow> RLE_compress text \<noteq> []"
proof -
  have "RLE_compress_loop rest result count c \<noteq> []" for rest result count c
    by (induction rest arbitrary: result count c) (simp_all add: run_def)
  then show "text \<noteq> [] \<Longrightarrow> RLE_compress text \<noteq> []"
    by (cases "text") (simp_all add: RLE_compress_def)
qed

lemma RLE_roundtrip_digit_free:
  assumes "\<forall>c \<in> set text. \<not> isDigit c"
  shows "RLE_decompress (RLE_compress text) = Inr text"
proof (cases "text")
  case Nil
  then show ?thesis by (simp add: RLE_compress_def RLE_decompress_def)
next
  case (Cons c rest)
  then have ne: "RLE_compress text \<noteq> []"
    by (intro RLE_compress_nonempty) simp
  have "RLE_decompress_loop (RLE_compress_loop rest [] 1 c) [] [] =
        Inr ([] @ replicate 1 c @ rest)"
    using assms Cons by (intro RLE_loops_inverse) simp_all
  then show ?thesis
    using ne Cons by (simp add: RLE_decompress_def) (simp add: RLE_compress_def)
qed

lemma RLE_decompress_loop_pending:
  "(xs = [] \<and> buf \<noteq> []) \<or> (xs \<noteq> [] \<and> isDigit (last xs)) \<Longrightarrow>
   \<exists>e. RLE_decompress_loop xs result buf = Inl e"
proof (induction xs arbitrary: result buf)
  case Nil
  then show ?case by simp
next
  case (Cons x xs)
  show ?case
  proof (cases "isDigit x")
    case True
    have "(xs = [] \<and> buf @ [x] \<noteq> []) \<or> (xs \<noteq> [] \<and> isDigit (last xs))"
      using Cons.prems by (cases xs) (auto split: if_splits)
    then show ?thesis using True Cons.IH [of "buf @ [x]" result] by simp
  next
    case False
    with Cons.prems have tail: "xs \<noteq> [] \<and> isDigit (last xs)"
      by (cases xs) (auto split: if_splits)
    show ?thesis
    proof (cases "if buf \<noteq> [] then parseInt buf else Some 1")
      case None
      then show ?thesis using False by simp
    next
      case (Some n)
      then show ?thesis
        using False tail Cons.IH [of "[]" "result @ replicate n x"] by simp
    qed
  qed
qed



subsection \<open>The seed dictionaries of LZW\<close>

lemma fold_set_dictionary:
  "n \<le> 65536 \<Longrightarrow>
   fold (\<lambda>i d. d([word_of_nat i :: jschar] \<mapsto> i)) [0..<n] Map.empty s =
     (case s of [c] \<Rightarrow> if unat c < n then Some (unat c) else None | _ \<Rightarrow> None)"
proof (induction n)
  case 0
  then show ?case by (simp split: list.splits)
next
  case (Suc n)
  have u: "unat (word_of_nat n :: jschar) = n"
    using Suc.prems by (intro of_nat_inverse [OF refl]) simp
  have w: "c = word_of_nat n \<longleftrightarrow> unat c = n" for c :: jschar
    using u by auto
  show ?case using Suc
    by (auto simp: w u split: list.splits)
qed

lemma initialDictionary_apply:
  "initialDictionary s =
     (case s of [c] \<Rightarrow> if unat c < 256 then Some (unat c) else None | _ \<Rightarrow> None)"
  unfolding initialDictionary_def by (rule fold_set_dictionary) simp

lemma fold_set_phrases:
  "n \<le> 65536 \<Longrightarrow>
   fold (\<lambda>i d. d(i \<mapsto> [word_of_nat i :: jschar])) [0..<n] Map.empty k =
     (if k < n then Some [word_of_nat k] else None)"
  by (induction n) auto

lemma initialPhrases_apply:
  "initialPhrases k = (if k < 256 then Some [word_of_nat k] else None)"
  unfolding initialPhrases_def by (rule fold_set_phrases) simp


subsection \<open>The decoder mirrors the encoder\<close>

text \<open>
  While the encoder holds the dictionary \<open>D\<close>, the next free code \<open>n\<close> and the pending
  phrase \<open>w\<close>, the decoder that has read the codes emitted so far holds \<open>E\<close>, \<open>m\<close> and
  \<open>prev\<close>: it is one entry behind, and the entry it lacks is \<open>prev\<close> followed by the first
  code unit of \<open>w\<close>.
\<close>

definition mirrors ::
  "(jsstring \<rightharpoonup> nat) \<Rightarrow> nat \<Rightarrow> jsstring \<Rightarrow> (nat \<rightharpoonup> jsstring) \<Rightarrow> nat \<Rightarrow> jsstring \<Rightarrow> bool" where
  "mirrors D n w E m prev \<longleftrightarrow>
     n = m + 1 \<and> prev \<noteq> [] \<and> w \<noteq> [] \<and>
     (\<forall>k s. E k = Some s \<longrightarrow> k < m) \<and>
     (\<forall>s k. D s = Some k \<longleftrightarrow> (E k = Some s \<or> (k = m \<and> s = prev @ [hd w])))"

lemma charAt0_nonempty: "s \<noteq> [] \<Longrightarrow> charAt0 s = [hd s]"
  by (cases s) (simp_all add: charAt0_def)

lemma LZW_emit:
  assumes "mirrors D n w E m prev" and "D w = Some k"
  shows "LZW_decompress_loop (Code k # rest) E m res prev =
         LZW_decompress_loop rest (E(m \<mapsto> prev @ [hd w])) (m + 1) (res @ w) w"
proof -
  from assms(1) have prev: "prev \<noteq> []" and w: "w \<noteq> []"
    and keys: "\<And>k s. E k = Some s \<Longrightarrow> k < m"
    and rel: "\<And>s k. D s = Some k \<longleftrightarrow> (E k = Some s \<or> (k = m \<and> s = prev @ [hd w]))"
    unfolding mirrors_def by blast+
  from rel [of w k] assms(2) consider "E k = Some w" | "k = m" "w = prev @ [hd w]" "E k \<noteq> Some w"
    by blast
  then show ?thesis
  proof cases
    case 1
    then show ?thesis using w by (simp add: phraseOf_def charAt0_nonempty)
  next
    case 2
    have none: "E m = None"
      using keys [of m] by (cases "E m") auto
    have "hd w = hd prev"
      using 2(2) prev by (metis hd_append2)
    then have e: "prev @ charAt0 prev = w"
      using 2(2) prev by (simp add: charAt0_nonempty)
    show ?thesis
      using 2(1) none w by (simp add: phraseOf_def e charAt0_nonempty)
  qed
qed

lemma mirrors_extend:
  assumes "mirrors D n w E m prev" and "D (w @ [c]) \<noteq> None"
  shows "mirrors D n (w @ [c]) E m prev"
  using assms unfolding mirrors_def by simp

lemma mirrors_emit:
  assumes "mirrors D n w E m prev" and "D w = Some k" and "D (w @ [c]) = None"
  shows "mirrors (D(w @ [c] \<mapsto> n)) (n + 1) [c] (E(m \<mapsto> prev @ [hd w])) (m + 1) w"
proof -
  from assms(1) have n: "n = m + 1" and prev: "prev \<noteq> []" and w: "w \<noteq> []"
    and keys: "\<And>k s. E k = Some s \<Longrightarrow> k < m"
    and rel: "\<And>s k. D s = Some k \<longleftrightarrow> (E k = Some s \<or> (k = m \<and> s = prev @ [hd w]))"
    unfolding mirrors_def by blast+
  have fresh: "E k' \<noteq> Some (w @ [c])" "prev @ [hd w] \<noteq> w @ [c]" for k'
    using rel [of "w @ [c]"] assms(3) by auto
  have "(D(w @ [c] \<mapsto> n)) s = Some k' \<longleftrightarrow>
        ((E(m \<mapsto> prev @ [hd w])) k' = Some s \<or> (k' = m + 1 \<and> s = w @ [hd [c]]))" for s k'
  proof (cases "s = w @ [c]")
    case True
    then show ?thesis using fresh n by auto
  next
    case False
    then show ?thesis using rel [of s k'] keys [of m s] by auto
  qed
  moreover have "(E(m \<mapsto> prev @ [hd w])) k' = Some s \<Longrightarrow> k' < m + 1" for k' s
    using keys [of k' s] by (cases "k' = m") auto
  ultimately show ?thesis
    unfolding mirrors_def using n w by blast
qed

definition seeded :: "(jsstring \<rightharpoonup> nat) \<Rightarrow> bool" where
  "seeded D \<longleftrightarrow> (\<forall>c. c \<le> 0xFF \<longrightarrow> D [c] \<noteq> None)"

lemma LZW_simulation:
  assumes "\<forall>c \<in> set cs. c \<le> 0xFF"
    and "mirrors D n w E m prev" and "D w \<noteq> None" and "seeded D"
  shows "\<exists>D' n' ks w' k.
      LZW_compress_loop (map (\<lambda>c. [c]) cs) D n out w = (D', n', out @ map Some ks, w') \<and>
      D' w' = Some k \<and> w' \<noteq> [] \<and>
      (\<exists>E' m' prev'. 
        LZW_decompress_loop (map Code (ks @ [k])) E m res prev = Inr (E', m', res @ w @ cs, prev'))"
  using assms
proof (induction cs arbitrary: D n w E m prev out res)
  case Nil
  then obtain k where k: "D w = Some k" by auto
  have w: "w \<noteq> []" using Nil.prems(2) by (simp add: mirrors_def)
  have "LZW_decompress_loop [Code k] E m res prev = Inr (E(m \<mapsto> prev @ [hd w]), m + 1, res @ w, w)"
    using LZW_emit [OF Nil.prems(2) k, of "[]" res] by simp
  then show ?case using k w
    by (intro exI [of _ D] exI [of _ n] exI [of _ "[]"] exI [of _ w] exI [of _ k]) simp
next
  case (Cons c cs)
  from Cons.prems(3) obtain k where k: "D w = Some k" by auto
  have c: "c \<le> 0xFF" and cs: "\<forall>c \<in> set cs. c \<le> 0xFF" using Cons.prems(1) by simp_all
  show ?case
  proof (cases "D (w @ [c])")
    case (Some j)
    have m': "mirrors D n (w @ [c]) E m prev"
      using Cons.prems(2) Some by (intro mirrors_extend) simp_all
    from Cons.IH [OF cs m' _ Cons.prems(4), of out res] Some
    show ?thesis by simp
  next
    case None
    have m': "mirrors (D(w @ [c] \<mapsto> n)) (n + 1) [c] (E(m \<mapsto> prev @ [hd w])) (m + 1) w"
      using Cons.prems(2) k None by (rule mirrors_emit)
    have w: "w \<noteq> []" using Cons.prems(2) by (simp add: mirrors_def)
    have neq: "w @ [c] \<noteq> [c]" using w by simp
    have s': "seeded (D(w @ [c] \<mapsto> n))"
      using Cons.prems(4) unfolding seeded_def by simp
    have d': "(D(w @ [c] \<mapsto> n)) [c] \<noteq> None"
      using s' c unfolding seeded_def by blast
    from Cons.IH [OF cs m' d' s', of "out @ [Some k]" "res @ w"]
    obtain D' n' ks w' k' E' m' prev' where
      loop: "LZW_compress_loop (map (\<lambda>c. [c]) cs) (D(w @ [c] \<mapsto> n)) (n + 1) (out @ [Some k]) [c] =
             (D', n', (out @ [Some k]) @ map Some ks, w')"
      and k': "D' w' = Some k'" "w' \<noteq> []"
      and dec: "LZW_decompress_loop (map Code (ks @ [k'])) (E(m \<mapsto> prev @ [hd w])) (m + 1) (res @ w) w =
             Inr (E', m', (res @ w) @ [c] @ cs, prev')"
      by blast
    have "LZW_compress_loop (map (\<lambda>c. [c]) (c # cs)) D n out w = (D', n', out @ map Some (k # ks), w')"
      using None k loop by simp
    moreover have "LZW_decompress_loop (map Code ((k # ks) @ [k'])) E m res prev =
             Inr (E', m', res @ w @ c # cs, prev')"
      using LZW_emit [OF Cons.prems(2) k, of "map Code (ks @ [k'])" res] dec by simp
    ultimately show ?thesis using k' by blast
  qed
qed

subsection \<open>Round trip of LZW on texts of code units below 256\<close>

lemma latin1_not_surrogate: "c \<le> 0xFF \<Longrightarrow> \<not> isHighSurrogate (c :: jschar)"
  by (simp add: isHighSurrogate_def word_le_nat_alt)

lemma codePoints_latin1:
  "\<forall>c \<in> set s. c \<le> 0xFF \<Longrightarrow> codePoints s = map (\<lambda>c. [c]) s"
  by (induction s rule: codePoints.induct) (simp_all add: latin1_not_surrogate)

lemma unat_latin1: "c \<le> 0xFF \<Longrightarrow> unat (c :: jschar) < 256"
  by (simp add: word_le_nat_alt)

lemma initialDictionary_unit: "c \<le> 0xFF \<Longrightarrow> initialDictionary [c] = Some (unat c)"
  by (simp add: initialDictionary_apply unat_latin1)

lemma initialDictionary_pair: "initialDictionary (c # d # s) = None"
  by (simp add: initialDictionary_apply)

lemma initialPhrases_unat: "c \<le> 0xFF \<Longrightarrow> initialPhrases (unat (c :: jschar)) = Some [c]"
  by (simp add: initialPhrases_apply unat_latin1)

lemma initial_mirror:
  "initialDictionary s = Some k \<longleftrightarrow> initialPhrases k = Some s"
proof
  assume "initialDictionary s = Some k"
  then obtain c where "s = [c]" "unat c < 256" "k = unat c"
    by (auto simp: initialDictionary_apply split: list.splits if_splits)
  then show "initialPhrases k = Some s" by (simp add: initialPhrases_apply)
next
  assume "initialPhrases k = Some s"
  then have k: "k < 256" and s: "s = [word_of_nat k]"
    by (auto simp: initialPhrases_apply split: if_splits)
  have "unat (word_of_nat k :: jschar) = k"
    using k by (intro of_nat_inverse [OF refl]) simp
  then show "initialDictionary s = Some k"
    using k s by (simp add: initialDictionary_apply)
qed

lemma seeded_initial: "seeded initialDictionary"
  by (simp add: seeded_def initialDictionary_unit)

lemma mirrors_initial:
  assumes "c \<le> 0xFF"
  shows "mirrors (initialDictionary([c, d] \<mapsto> 256)) 257 [d] initialPhrases 256 [c]"
proof -
  have "(initialDictionary([c, d] \<mapsto> 256)) s = Some k \<longleftrightarrow>
        (initialPhrases k = Some s \<or> (k = 256 \<and> s = [c] @ [hd [d]]))" for s k
  proof (cases "s = [c, d]")
    case True
    then show ?thesis by (auto simp: initialPhrases_apply)
  next
    case False
    then show ?thesis using initial_mirror [of s k] by (auto simp: initialPhrases_apply)
  qed
  moreover have "initialPhrases k = Some s \<Longrightarrow> k < 256" for k s
    by (simp add: initialPhrases_apply split: if_splits)
  ultimately show ?thesis unfolding mirrors_def by simp
qed

lemma LZW_simulation_elim:
  assumes "\<forall>c \<in> set cs. c \<le> 0xFF"
    and "mirrors D n w E m prev" and "D w \<noteq> None" and "seeded D"
  obtains D' n' ks w' k E' m' prev' where
    "LZW_compress_loop (map (\<lambda>c. [c]) cs) D n out w = (D', n', out @ map Some ks, w')"
    and "D' w' = Some k" and "w' \<noteq> []"
    and "LZW_decompress_loop (map Code (ks @ [k])) E m res prev = Inr (E', m', res @ w @ cs, prev')"
  using LZW_simulation [OF assms, of out res] by blast

lemma LZW_codes_roundtrip:
  assumes "\<forall>c \<in> set s. c \<le> 0xFF" and "s \<noteq> []"
  shows "\<exists>ks. ks \<noteq> [] \<and> LZW_compress_codes s = map Some ks \<and>
           (\<exists>E m prev. LZW_decompress_codes (map Code ks) = Inr (E, m, s, prev))"
proof -
  from assms(2) obtain c cs where s: "s = c # cs" by (cases s) auto
  have c: "c \<le> 0xFF" and cs: "\<forall>d \<in> set cs. d \<le> 0xFF" using assms(1) s by simp_all
  have cp: "codePoints s = [c] # map (\<lambda>c. [c]) cs"
    using codePoints_latin1 [OF assms(1)] s by simp
  show ?thesis
  proof (cases cs)
    case Nil
    have "LZW_compress_codes s = map Some [unat c]"
      using Nil c by (simp add: LZW_compress_codes_def cp initialDictionary_unit)
    moreover have "LZW_decompress_codes (map Code [unat c]) = Inr (initialPhrases, 256, s, [c])"
      using Nil c s by (simp add: LZW_decompress_codes_def phraseOf_def initialPhrases_unat)
    ultimately show ?thesis by blast
  next
    case (Cons d ds)
    have ds: "\<forall>e \<in> set ds. e \<le> 0xFF" and d: "d \<le> 0xFF" using cs Cons by simp_all
    let ?D = "initialDictionary([c, d] \<mapsto> 256)"
    have sd: "seeded ?D"
      using seeded_initial unfolding seeded_def by simp
    have dw: "?D [d] \<noteq> None"
      using sd d unfolding seeded_def by blast
    obtain D' n' ks w' k E' m' prev' where
      loop: "LZW_compress_loop (map (\<lambda>c. [c]) ds) ?D 257 [Some (unat c)] [d] =
             (D', n', [Some (unat c)] @ map Some ks, w')"
      and k: "D' w' = Some k" "w' \<noteq> []"
      and dec: "LZW_decompress_loop (map Code (ks @ [k])) initialPhrases 256 [c] [c] =
             Inr (E', m', [c] @ [d] @ ds, prev')"
      by (rule LZW_simulation_elim [OF ds mirrors_initial [OF c] dw sd, of "[Some (unat c)]" "[c]"])
    have "LZW_compress_codes s = map Some (unat c # ks @ [k])"
      using c loop k Cons
      by (simp add: LZW_compress_codes_def cp initialDictionary_unit initialDictionary_pair)
    moreover have "LZW_decompress_codes (map Code (unat c # ks @ [k])) = Inr (E', m', s, prev')"
      using c dec s Cons by (simp add: LZW_decompress_codes_def phraseOf_def initialPhrases_unat)
    ultimately show ?thesis by blast
  qed
qed

lemma split_no_sep: "\<forall>c \<in> set ds. c \<noteq> sep \<Longrightarrow> split sep ds = [ds]"
  by (induction ds) simp_all

lemma split_at_sep:
  "\<forall>c \<in> set ds. c \<noteq> sep \<Longrightarrow> split sep (ds @ sep # rest) = ds # split sep rest"
  by (induction ds) simp_all

lemma digit_not_comma: "isDigit c \<Longrightarrow> c \<noteq> comma"
  by (auto simp: isDigit_def comma_def)

lemma toString_no_comma: "\<forall>c \<in> set (toString n). c \<noteq> comma"
  using toString_digits [of n] digit_not_comma by blast

lemma Number_toString: "Number (toString n) = Code n"
  using toString_digits [of n]
  by (simp add: Number_def toString_nonempty digitsValue_toString list_all_iff)

lemma joinCodes_nonempty: "ks \<noteq> [] \<Longrightarrow> joinCodes (map Some ks) \<noteq> []"
proof (cases ks)
  case Nil
  assume "ks \<noteq> []"
  with Nil show ?thesis by simp
next
  case (Cons k ks')
  then show ?thesis by (cases ks') (simp_all add: render_def toString_nonempty)
qed

lemma split_joinCodes:
  "ks \<noteq> [] \<Longrightarrow> map Number (split comma (joinCodes (map Some ks))) = map Code ks"
proof (induction ks)
  case Nil
  then show ?case by simp
next
  case (Cons k ks)
  show ?case
  proof (cases ks)
    case Nil
    then show ?thesis
      by (simp add: render_def split_no_sep [OF toString_no_comma] Number_toString)
  next
    case (Cons j js)
    then have "map Number (split comma (joinCodes (map Some ks))) = map Code ks"
      using Cons.IH by simp
    then show ?thesis using Cons
      by (simp add: render_def split_at_sep [OF toString_no_comma] Number_toString)
  qed
qed

lemma LZW_roundtrip_latin1:
  assumes "\<forall>c \<in> set s. c \<le> 0xFF"
  shows "LZW_decompress (LZW_compress s) = Inr s"
proof (cases "s = []")
  case True
  then show ?thesis by (simp add: LZW_compress_def LZW_decompress_def)
next
  case False
  from LZW_codes_roundtrip [OF assms False] obtain ks E m prev where
    ks: "ks \<noteq> []" "LZW_compress_codes s = map Some ks"
      and dec: "LZW_decompress_codes (map Code ks) = Inr (E, m, s, prev)"
    by blast
  show ?thesis
    using False ks dec
    by (simp add: LZW_compress_def LZW_decompress_def joinCodes_nonempty split_joinCodes)
qed

subsection \<open>The states the LZW decoder reaches\<close>

definition decoder_ok :: "(nat \<rightharpoonup> jsstring) \<Rightarrow> nat \<Rightarrow> jsstring \<Rightarrow> bool" where
  "decoder_ok E m prev \<longleftrightarrow>
     prev \<noteq> [] \<and> (\<forall>k. (E k \<noteq> None) = (k < m)) \<and> (\<forall>k s. E k = Some s \<longrightarrow> s \<noteq> [])"

lemma LZW_decompress_loop_append:
  "LZW_decompress_loop (xs @ ys) E m res prev =
     (case LZW_decompress_loop xs E m res prev of
        Inl e \<Rightarrow> Inl e
      | Inr (E', m', res', prev') \<Rightarrow> LZW_decompress_loop ys E' m' res' prev')"
  by (induction xs arbitrary: E m res prev) (simp_all add: Let_def split: option.splits)

lemma LZW_decompress_codes_append:
  assumes "LZW_decompress_codes xs = Inr (E, m, res, prev)"
  shows "LZW_decompress_codes (xs @ ys) = LZW_decompress_loop ys E m res prev"
proof (cases xs)
  case Nil
  with assms show ?thesis by (simp add: LZW_decompress_codes_def)
next
  case (Cons c cs)
  with assms show ?thesis
    by (simp add: LZW_decompress_codes_def LZW_decompress_loop_append split: option.splits)
qed

lemma decoder_ok_step:
  assumes "decoder_ok E m prev" and "entry \<noteq> []"
  shows "decoder_ok (E(m \<mapsto> prev @ charAt0 entry)) (m + 1) entry"
  using assms unfolding decoder_ok_def by (auto simp: less_Suc_eq)

lemma decoder_ok_loop:
  assumes "decoder_ok E m prev"
    and "LZW_decompress_loop cs E m res prev = Inr (E', m', res', prev')"
  shows "decoder_ok E' m' prev'"
  using assms
proof (induction cs arbitrary: E m res prev)
  case Nil
  then show ?case by simp
next
  case (Cons c cs)
  show ?case
  proof (cases "phraseOf E c")
    case (Some entry)
    then have "entry \<noteq> []"
      using Cons.prems(1) unfolding decoder_ok_def phraseOf_def
      by (auto split: number.splits)
    then have "decoder_ok (E(m \<mapsto> prev @ charAt0 entry)) (m + 1) entry"
      using Cons.prems(1) by (intro decoder_ok_step)
    then show ?thesis using Cons.IH Cons.prems(2) Some by simp
  next
    case None
    show ?thesis
    proof (cases "c = Code m")
      case True
      have "prev @ charAt0 prev \<noteq> []"
        using Cons.prems(1) unfolding decoder_ok_def by simp
      then have "decoder_ok (E(m \<mapsto> prev @ charAt0 (prev @ charAt0 prev))) (m + 1)
                   (prev @ charAt0 prev)"
        using Cons.prems(1) by (intro decoder_ok_step)
      then show ?thesis using Cons.IH Cons.prems(2) None True by (simp add: Let_def)
    next
      case False
      then show ?thesis using Cons.prems(2) None by simp
    qed
  qed
qed

lemma decoder_ok_initial:
  assumes "phraseOf initialPhrases c = Some p"
  shows "decoder_ok initialPhrases 256 p"
  using assms unfolding decoder_ok_def phraseOf_def
  by (auto simp: initialPhrases_apply split: number.splits if_splits)

lemma decoder_ok_codes:
  assumes "LZW_decompress_codes cs = Inr (E, m, res, prev)"
  shows "decoder_ok E m prev"
proof (cases cs)
  case Nil
  with assms show ?thesis by (simp add: LZW_decompress_codes_def)
next
  case (Cons c rest)
  with assms obtain p where p: "phraseOf initialPhrases c = Some p"
    and loop: "LZW_decompress_loop rest initialPhrases 256 p p = Inr (E, m, res, prev)"
    by (auto simp: LZW_decompress_codes_def split: option.splits)
  show ?thesis using decoder_ok_loop [OF decoder_ok_initial [OF p] loop] .
qed



subsection \<open>Code points and the frequency map\<close>

lemma concat_codePoints: "concat (codePoints s) = s"
  by (induction s rule: codePoints.induct) simp_all

lemma codePoints_eq_Nil: "codePoints s = [] \<longleftrightarrow> s = []"
  by (induction s rule: codePoints.induct) simp_all

lemma codePoints_nonempty: "cp \<in> set (codePoints s) \<Longrightarrow> cp \<noteq> []"
  by (induction s rule: codePoints.induct) (auto split: if_splits)

definition countStep :: "jsstring \<Rightarrow> (jsstring \<times> nat) list \<Rightarrow> (jsstring \<times> nat) list" where
  "countStep ch freqMap =
     AList.update ch ((case map_of freqMap ch of None \<Rightarrow> 0 | Some n \<Rightarrow> n) + 1) freqMap"

lemma buildFrequencyMap_fold: "buildFrequencyMap s = fold countStep (codePoints s) []"
  unfolding buildFrequencyMap_def countStep_def ..

lemma keys_fold_countStep:
  "fst ` set (fold countStep cs fm) = set cs \<union> fst ` set fm"
  by (induction cs arbitrary: fm) (auto simp: countStep_def dom_update)

lemma distinct_fold_countStep:
  "distinct (map fst fm) \<Longrightarrow> distinct (map fst (fold countStep cs fm))"
  by (induction cs arbitrary: fm) (simp_all add: countStep_def distinct_update)

lemma keys_buildFrequencyMap: "fst ` set (buildFrequencyMap s) = set (codePoints s)"
  by (simp add: buildFrequencyMap_fold keys_fold_countStep)

lemma distinct_buildFrequencyMap: "distinct (map fst (buildFrequencyMap s))"
  by (simp add: buildFrequencyMap_fold distinct_fold_countStep)

lemma fold_countStep_same:
  "fold countStep (replicate n ch) [(ch, k)] = [(ch, k + n)]"
  by (induction n arbitrary: k) (simp_all add: countStep_def)

lemma buildFrequencyMap_single:
  assumes "codePoints s = replicate n ch" and "n > 0"
  shows "buildFrequencyMap s = [(ch, n)]"
proof -
  from assms(2) obtain k where n: "n = Suc k" by (cases n) auto
  have "countStep ch [] = [(ch, 1)]"
    by (simp add: countStep_def)
  then have "fold countStep (replicate n ch) [] = fold countStep (replicate k ch) [(ch, 1)]"
    unfolding n by (simp only: replicate_Suc fold_simps)
  also have "\<dots> = [(ch, 1 + k)]"
    by (rule fold_countStep_same)
  finally show ?thesis
    using assms(1) n by (simp only: buildFrequencyMap_fold) simp
qed

lemma codePoints_of_single_key:
  assumes "buildFrequencyMap s = [(ch, fr)]"
  shows "codePoints s = replicate (length (codePoints s)) ch"
proof -
  have "set (codePoints s) = {ch}"
    using keys_buildFrequencyMap [of s] assms by simp
  then show ?thesis
    by (metis replicate_length_same singletonD)
qed


subsection \<open>The heap operations keep every sum over the heap\<close>

text \<open>
  A swap of two cells changes no sum over the array, so \<^verbatim>\<open>insert\<close> adds the value of the
  new item to the sum and \<^verbatim>\<open>extractMin\<close> takes the value of the returned item from it,
  whatever the comparator does. With the number of leaves that carry a given character
  as the value of a tree, this accounts for every leaf of the tree that is built.
\<close>

lemma sum_list_update_nat:
  "k < length xs \<Longrightarrow> sum_list (xs[k := x]) + xs ! k = sum_list xs + (x :: nat)"
proof (induction xs arbitrary: k)
  case Nil
  then show ?case by simp
next
  case (Cons y ys)
  then show ?case by (cases k) (simp_all add: add.assoc add.left_commute)
qed

lemma sum_map_swap:
  fixes f :: "'a \<Rightarrow> nat"
  assumes "i < length heap" and "j < length heap"
  shows "sum_list (map f (swap heap i j)) = sum_list (map f heap)"
proof -
  let ?xs = "map f heap"
  let ?ys = "?xs[i := f (heap ! j)]"
  have 1: "sum_list ?ys + f (heap ! i) = sum_list ?xs + f (heap ! j)"
    using sum_list_update_nat [of i ?xs "f (heap ! j)"] assms(1) by simp
  have yj: "?ys ! j = f (heap ! j)"
    using assms by (cases "i = j") simp_all
  have 2: "sum_list (?ys[j := f (heap ! i)]) + f (heap ! j) = sum_list ?ys + f (heap ! i)"
    using sum_list_update_nat [of j ?ys "f (heap ! i)"] assms(2) yj by simp
  have "map f (swap heap i j) = ?ys[j := f (heap ! i)]"
    by (simp add: swap_def map_update)
  then show ?thesis using 1 2 by simp
qed

lemma sum_map_bubbleUp:
  fixes f :: "'a \<Rightarrow> nat"
  shows "index < length heap \<Longrightarrow>
    sum_list (map f (bubbleUp comparator heap index)) = sum_list (map f heap)"
proof (induction comparator heap index rule: bubbleUp.induct)
  case (1 comparator heap index)
  show ?case
  proof (cases "index > 0 \<and> comparator (heap ! index) (heap ! ((index - 1) div 2)) < 0")
    case True
    have p: "(index - 1) div 2 < length heap" using "1.prems" by simp
    have "sum_list (map f (bubbleUp comparator (swap heap index ((index - 1) div 2))
              ((index - 1) div 2))) = sum_list (map f (swap heap index ((index - 1) div 2)))"
      using True p by (intro "1.IH") simp_all
    then show ?thesis
      using True p "1.prems"
      by (subst bubbleUp.simps) (simp add: Let_def sum_map_swap)
  next
    case False
    then show ?thesis by (subst bubbleUp.simps) (auto simp: Let_def)
  qed
qed

lemma sum_map_bubbleDown:
  fixes f :: "'a \<Rightarrow> nat"
  shows "sum_list (map f (bubbleDown comparator heap index)) = sum_list (map f heap)"
proof (induction comparator heap index rule: bubbleDown.induct)
  case (1 comparator heap index)
  show ?case
  proof (cases "smallestOf comparator heap index = index")
    case True
    then show ?thesis by (subst bubbleDown.simps) (simp add: Let_def)
  next
    case False
    from smallestOf_range [OF False]
    have r: "index < length heap" "smallestOf comparator heap index < length heap" by simp_all
    have "sum_list (map f (bubbleDown comparator
             (swap heap index (smallestOf comparator heap index))
             (smallestOf comparator heap index))) =
          sum_list (map f (swap heap index (smallestOf comparator heap index)))"
      using False by (intro "1.IH") simp_all
    then show ?thesis
      using False r by (subst bubbleDown.simps) (simp add: Let_def sum_map_swap)
  qed
qed

lemma sum_map_insert_heap:
  fixes f :: "'a \<Rightarrow> nat"
  shows "sum_list (map f (insert_heap comparator heap item)) = sum_list (map f heap) + f item"
  by (simp add: insert_heap_def sum_map_bubbleUp)

lemma sum_map_extractMin:
  fixes f :: "'a \<Rightarrow> nat"
  assumes "heap \<noteq> []"
  shows "\<exists>item. fst (extractMin comparator heap) = Some item \<and>
           sum_list (map f heap) = f item + sum_list (map f (snd (extractMin comparator heap)))"
proof (cases "length heap = 1")
  case True
  then obtain x where "heap = [x]" by (cases heap) auto
  then show ?thesis by (simp add: extractMin_def)
next
  case False
  moreover have "length heap > 0" using assms by simp
  ultimately have len: "length heap \<ge> 2" by linarith
  let ?b = "butlast heap"
  have b0: "0 < length ?b" using len by simp
  have split: "heap = ?b @ [last heap]" using assms by simp
  have "sum_list (map f heap) = sum_list (map f ?b) + f (last heap)"
    by (subst split) simp
  moreover have "sum_list (map f (?b[0 := last heap])) + f (?b ! 0) =
                 sum_list (map f ?b) + f (last heap)"
    using sum_list_update_nat [of 0 "map f ?b" "f (last heap)"] b0 by (simp add: map_update)
  moreover have "?b ! 0 = heap ! 0" using b0 by (simp add: nth_butlast)
  ultimately have "sum_list (map f heap) = f (heap ! 0) + sum_list (map f (?b[0 := last heap]))"
    by simp
  then show ?thesis
    using assms False by (simp add: extractMin_def sum_map_bubbleDown)
qed

subsection \<open>The tree that is built\<close>

fun leaves :: "HuffmanNode \<Rightarrow> jsstring list" where
  "leaves (HuffmanNode c f l r) =
     (case leafChar (HuffmanNode c f l r) of
        Some ch \<Rightarrow> [ch]
      | None \<Rightarrow>
          (case l of None \<Rightarrow> [] | Some leftNode \<Rightarrow> leaves leftNode) @
          (case r of None \<Rightarrow> [] | Some rightNode \<Rightarrow> leaves rightNode))"

definition leafCount :: "jsstring \<Rightarrow> HuffmanNode \<Rightarrow> nat" where
  "leafCount ch node = count_list (leaves node) ch"

lemma leafCount_leaf: "leafCount c (HuffmanNode (Some ch) fr None None) = (if ch = c then 1 else 0)"
  by (simp add: leafCount_def leafChar_def)

lemma leafCount_merge:
  "leafCount c (HuffmanNode None w (Some l) (Some r)) = leafCount c l + leafCount c r"
  by (simp add: leafCount_def leafChar_def)

lemma mergeLoop_result:
  "minHeap \<noteq> [] \<Longrightarrow>
   \<exists>root. mergeLoop minHeap = Inr [root] \<and>
     (\<forall>c. leafCount c root = sum_list (map (leafCount c) minHeap))"
proof (induction minHeap rule: mergeLoop.induct)
  case (1 minHeap)
  show ?case
  proof (cases "length minHeap > 1")
    case False
    with "1.prems" obtain root where "minHeap = [root]"
      by (cases minHeap) auto
    then show ?thesis by (subst mergeLoop.simps) simp
  next
    case True
    obtain a heap1 where e1: "extractMin compareFreq minHeap = (a, heap1)"
      by (cases "extractMin compareFreq minHeap")
    obtain b heap2 where e2: "extractMin compareFreq heap1 = (b, heap2)"
      by (cases "extractMin compareFreq heap1")
    have len1: "length heap1 = length minHeap - 1"
      using length_extractMin [OF "1.prems", of compareFreq] e1 by simp
    then have ne1: "heap1 \<noteq> []" using True by auto
    from sum_map_extractMin [OF "1.prems", of compareFreq] e1
    obtain leftNode where l: "a = Some leftNode"
      and suml: "\<And>c. sum_list (map (leafCount c) minHeap) =
                   leafCount c leftNode + sum_list (map (leafCount c) heap1)"
      by (metis fst_conv option.inject snd_conv sum_map_extractMin "1.prems")
    obtain rightNode where r: "b = Some rightNode"
      and sumr: "\<And>c. sum_list (map (leafCount c) heap1) =
                   leafCount c rightNode + sum_list (map (leafCount c) heap2)"
      by (metis fst_conv option.inject snd_conv sum_map_extractMin ne1 e2)
    let ?parent = "HuffmanNode None (freq leftNode + freq rightNode) (Some leftNode) (Some rightNode)"
    let ?heap = "insert_heap compareFreq heap2 ?parent"
    have ne: "?heap \<noteq> []"
      using length_insert_heap [of compareFreq heap2 ?parent] by (cases ?heap) auto
    have "\<exists>root. mergeLoop ?heap = Inr [root] \<and>
            (\<forall>c. leafCount c root = sum_list (map (leafCount c) ?heap))"
      using True e1 [symmetric] l e2 [symmetric] r ne
      by (intro "1.IH" [of a heap1 leftNode b heap2 rightNode]) simp_all
    then obtain root where m: "mergeLoop ?heap = Inr [root]"
      and s: "\<And>c. leafCount c root = sum_list (map (leafCount c) ?heap)"
      by blast
    have "leafCount c root = sum_list (map (leafCount c) minHeap)" for c
      using s [of c] suml [of c] sumr [of c]
      by (simp add: sum_map_insert_heap leafCount_merge)
    moreover have "mergeLoop minHeap = Inr [root]"
      using True e1 l e2 r m by (subst mergeLoop.simps) simp
    ultimately show ?thesis by blast
  qed
qed

definition seedHeap :: "(jsstring \<times> nat) list \<Rightarrow> HuffmanNode list \<Rightarrow> HuffmanNode list" where
  "seedHeap freqMap heap =
     fold (\<lambda>(ch, fr) heap. insert_heap compareFreq heap (HuffmanNode (Some ch) fr None None))
       freqMap heap"

lemma length_seedHeap: "length (seedHeap freqMap heap) = length freqMap + length heap"
  unfolding seedHeap_def
  by (induction freqMap arbitrary: heap) (simp_all split: prod.splits)

lemma sum_seedHeap:
  "sum_list (map (leafCount c) (seedHeap freqMap heap)) =
     count_list (map fst freqMap) c + sum_list (map (leafCount c) heap)"
  unfolding seedHeap_def
  by (induction freqMap arbitrary: heap)
    (auto simp: sum_map_insert_heap leafCount_leaf split: prod.splits)

lemma buildHuffmanTree_result:
  assumes "length freqMap \<ge> 2"
  shows "\<exists>root. buildHuffmanTree freqMap = Inr (Some root) \<and>
           (\<forall>c. count_list (leaves root) c = count_list (map fst freqMap) c)"
proof -
  let ?heap = "seedHeap freqMap []"
  have len: "length ?heap = length freqMap" by (simp add: length_seedHeap)
  then have ne: "?heap \<noteq> []" using assms by auto
  from mergeLoop_result [OF ne] obtain root where m: "mergeLoop ?heap = Inr [root]"
    and s: "\<And>c. leafCount c root = sum_list (map (leafCount c) ?heap)"
    by blast
  have "count_list (leaves root) c = count_list (map fst freqMap) c" for c
    using s [of c] by (simp add: sum_seedHeap leafCount_def)
  moreover have "buildHuffmanTree freqMap = Inr (Some root)"
    using assms len m
    by (simp add: buildHuffmanTree_def seedHeap_def [symmetric] extractMin_def)
  ultimately show ?thesis by blast
qed

subsection \<open>Codes and their decoding\<close>

fun pathOf :: "HuffmanNode \<Rightarrow> jsstring \<Rightarrow> jsstring" where
  "pathOf (HuffmanNode c f l r) ch =
     (case leafChar (HuffmanNode c f l r) of
        Some _ \<Rightarrow> []
      | None \<Rightarrow>
          (case r of
             Some rightNode \<Rightarrow>
               if ch \<in> set (leaves rightNode) then 0x31 # pathOf rightNode ch
               else (case l of None \<Rightarrow> [] | Some leftNode \<Rightarrow> 0x30 # pathOf leftNode ch)
           | None \<Rightarrow> (case l of None \<Rightarrow> [] | Some leftNode \<Rightarrow> 0x30 # pathOf leftNode ch)))"

definition nonEmptyCode :: "jsstring \<Rightarrow> jsstring" where
  "nonEmptyCode code = (if code = [] then str ''0'' else code)"

lemma str_0: "str ''0'' = [0x30]" and str_1: "str ''1'' = [0x31]"
  by (simp_all add: str_def)

lemma children_induct [case_names node]:
  assumes "\<And>node. (\<And>child. left node = Some child \<Longrightarrow> P child) \<Longrightarrow>
                  (\<And>child. right node = Some child \<Longrightarrow> P child) \<Longrightarrow> P node"
  shows "P node"
proof (induction node)
  case (HuffmanNode c f l r)
  show ?case
  proof (rule assms)
    fix child assume "left (HuffmanNode c f l r) = Some child"
    then show "P child" using HuffmanNode(1) by simp
  next
    fix child assume "right (HuffmanNode c f l r) = Some child"
    then show "P child" using HuffmanNode(2) by simp
  qed
qed

lemma leaves_leaf: "leafChar node = Some ch \<Longrightarrow> leaves node = [ch]"
  by (cases node) simp

lemma leaves_inner:
  "leafChar node = None \<Longrightarrow>
   leaves node = (case left node of None \<Rightarrow> [] | Some l \<Rightarrow> leaves l) @
                 (case right node of None \<Rightarrow> [] | Some r \<Rightarrow> leaves r)"
  by (cases node) simp

lemma pathOf_leaf: "leafChar node = Some leaf \<Longrightarrow> pathOf node ch = []"
  by (cases node) simp

lemma pathOf_right:
  "leafChar node = None \<Longrightarrow> right node = Some r \<Longrightarrow> ch \<in> set (leaves r) \<Longrightarrow>
   pathOf node ch = 0x31 # pathOf r ch"
  by (cases node) simp

lemma pathOf_left:
  "leafChar node = None \<Longrightarrow> left node = Some l \<Longrightarrow>
   (\<And>r. right node = Some r \<Longrightarrow> ch \<notin> set (leaves r)) \<Longrightarrow>
   pathOf node ch = 0x30 # pathOf l ch"
  by (cases node) (auto split: option.splits)

lemma leaves_cases:
  assumes "leafChar node = None" and "ch \<in> set (leaves node)"
  obtains r where "right node = Some r" and "ch \<in> set (leaves r)"
  | l where "left node = Some l" and "ch \<in> set (leaves l)"
      and "\<And>r. right node = Some r \<Longrightarrow> ch \<notin> set (leaves r)"
proof (cases "\<exists>r. right node = Some r \<and> ch \<in> set (leaves r)")
  case True
  then show thesis using that(1) by blast
next
  case False
  then have nr: "\<And>r. right node = Some r \<Longrightarrow> ch \<notin> set (leaves r)" by blast
  have "ch \<in> set (case left node of None \<Rightarrow> [] | Some l \<Rightarrow> leaves l) \<union>
             set (case right node of None \<Rightarrow> [] | Some r \<Rightarrow> leaves r)"
    using assms by (simp add: leaves_inner)
  with nr have "ch \<in> set (case left node of None \<Rightarrow> [] | Some l \<Rightarrow> leaves l)"
    by (cases "right node") auto
  then obtain l where "left node = Some l" "ch \<in> set (leaves l)"
    by (cases "left node") auto
  then show thesis using that(2) nr by blast
qed

lemma traverse_leaf:
  "leafChar node = Some ch \<Longrightarrow>
   traverse node code m = m(ch \<mapsto> (if code = [] then str ''0'' else code))"
  by (cases node) simp

lemma traverse_inner:
  "leafChar node = None \<Longrightarrow>
   traverse node code m =
     (let m1 = (case left node of None \<Rightarrow> m | Some l \<Rightarrow> traverse l (code @ str ''0'') m)
      in (case right node of None \<Rightarrow> m1 | Some r \<Rightarrow> traverse r (code @ str ''1'') m1))"
  by (cases node) simp

lemma traverse_apply:
  "traverse node code m ch =
     (if ch \<in> set (leaves node) then Some (nonEmptyCode (code @ pathOf node ch)) else m ch)"
proof (induction node arbitrary: code m rule: children_induct)
  case (node node)
  show ?case
  proof (cases "leafChar node")
    case (Some leaf)
    then show ?thesis
      by (simp add: traverse_leaf leaves_leaf pathOf_leaf nonEmptyCode_def)
  next
    case None
    show ?thesis
    proof (cases "ch \<in> set (leaves node)")
      case False
      then have "(\<And>l. left node = Some l \<Longrightarrow> ch \<notin> set (leaves l))"
        and "(\<And>r. right node = Some r \<Longrightarrow> ch \<notin> set (leaves r))"
        using None by (auto simp: leaves_inner)
      then show ?thesis
        using False None node.IH
        by (auto simp: traverse_inner Let_def split: option.splits)
    next
      case True
      from None True show ?thesis
      proof (cases rule: leaves_cases)
        case (1 r)
        then show ?thesis
          using True None node.IH(2) [OF 1(1)]
          by (simp add: traverse_inner Let_def pathOf_right str_1)
      next
        case (2 l)
        have "traverse node code m ch = traverse l (code @ str ''0'') m ch"
          using None 2 node.IH(2) by (auto simp: traverse_inner Let_def split: option.splits)
        then show ?thesis
          using True None 2 node.IH(1) [OF 2(1)]
          by (simp add: pathOf_left str_0)
      qed
    qed
  qed
qed

lemma pathOf_bits: "set (pathOf node ch) \<subseteq> {0x30, 0x31}"
proof (induction node rule: children_induct)
  case (node node)
  show ?case
  proof (cases "leafChar node")
    case (Some leaf)
    then show ?thesis by (simp add: pathOf_leaf)
  next
    case None
    show ?thesis
    proof (cases "ch \<in> set (leaves node)")
      case True
      from None True show ?thesis
      proof (cases rule: leaves_cases)
        case (1 r)
        then show ?thesis using None node.IH(2) [OF 1(1)] by (simp add: pathOf_right)
      next
        case (2 l)
        then show ?thesis using None node.IH(1) [OF 2(1)] by (simp add: pathOf_left)
      qed
    next
      case False
      then have nr: "\<And>r. right node = Some r \<Longrightarrow> ch \<notin> set (leaves r)"
        using None by (auto simp: leaves_inner)
      show ?thesis
      proof (cases "left node")
        case None' : None
        then show ?thesis using None nr by (cases node) (auto split: option.splits)
      next
        case (Some l)
        then show ?thesis
          using None node.IH(1) [OF Some] pathOf_left [OF None Some nr] by simp
      qed
    qed
  qed
qed

lemma pathOf_nonempty:
  assumes "leafChar node = None" and "ch \<in> set (leaves node)"
  shows "pathOf node ch \<noteq> []"
  using assms
  by (cases rule: leaves_cases) (simp_all add: assms(1) pathOf_right pathOf_left)

lemma Huffman_decompress_loop_path:
  "leafChar node = None \<Longrightarrow> ch \<in> set (leaves node) \<Longrightarrow>
   Huffman_decompress_loop (map (\<lambda>b. [b]) (pathOf node ch) @ rest) root node result =
   Huffman_decompress_loop rest root root (result @ ch)"
proof (induction node rule: children_induct)
  case (node node)
  have step: "Huffman_decompress_loop (map (\<lambda>b. [b]) (pathOf child ch) @ rest) root node' result' =
      Huffman_decompress_loop rest root root (result @ ch)"
    if "ch \<in> set (leaves child)"
      and "leafChar child = None \<Longrightarrow>
         Huffman_decompress_loop (map (\<lambda>b. [b]) (pathOf child ch) @ rest) root child result =
         Huffman_decompress_loop rest root root (result @ ch)"
      and "node' = (case leafChar child of Some _ \<Rightarrow> root | None \<Rightarrow> child)"
      and "result' = (case leafChar child of Some leaf \<Rightarrow> result @ leaf | None \<Rightarrow> result)"
    for child node' result'
  proof (cases "leafChar child")
    case None
    then show ?thesis using that by simp
  next
    case (Some leaf)
    then have "leaf = ch" using that(1) leaves_leaf [OF Some] by simp
    then show ?thesis using Some that by (simp add: pathOf_leaf [OF Some])
  qed
  from node.prems show ?case
  proof (cases rule: leaves_cases)
    case (1 r)
    have "Huffman_decompress_loop (map (\<lambda>b. [b]) (pathOf node ch) @ rest) root node result =
          Huffman_decompress_loop (map (\<lambda>b. [b]) (pathOf r ch) @ rest) root
            (case leafChar r of Some _ \<Rightarrow> root | None \<Rightarrow> r)
            (case leafChar r of Some leaf \<Rightarrow> result @ leaf | None \<Rightarrow> result)"
      using 1 node.prems(1)
      by (simp add: pathOf_right requiredChild_def str_0 str_1 split: option.splits)
    also have "\<dots> = Huffman_decompress_loop rest root root (result @ ch)"
      using 1(2) node.IH(2) [OF 1(1) _ 1(2)] by (rule step [where child = r]) simp_all
    finally show ?thesis .
  next
    case (2 l)
    have "Huffman_decompress_loop (map (\<lambda>b. [b]) (pathOf node ch) @ rest) root node result =
          Huffman_decompress_loop (map (\<lambda>b. [b]) (pathOf l ch) @ rest) root
            (case leafChar l of Some _ \<Rightarrow> root | None \<Rightarrow> l)
            (case leafChar l of Some leaf \<Rightarrow> result @ leaf | None \<Rightarrow> result)"
      using 2 node.prems(1)
      by (simp add: pathOf_left requiredChild_def str_0 str_1 split: option.splits)
    also have "\<dots> = Huffman_decompress_loop rest root root (result @ ch)"
      using 2(2) node.IH(1) [OF 2(1) _ 2(2)] by (rule step [where child = l]) simp_all
    finally show ?thesis .
  qed
qed

subsection \<open>Round trip of Huffman coding\<close>

lemma Huffman_decompress_loop_codes:
  assumes "leafChar root = None" and "\<forall>ch \<in> set cs. ch \<in> set (leaves root)"
  shows "Huffman_decompress_loop (map (\<lambda>b. [b]) (concat (map (pathOf root) cs))) root root result =
         result @ concat cs"
  using assms(2)
proof (induction cs arbitrary: result)
  case Nil
  then show ?case by simp
next
  case (Cons ch cs)
  have "Huffman_decompress_loop
          (map (\<lambda>b. [b]) (pathOf root ch) @ map (\<lambda>b. [b]) (concat (map (pathOf root) cs)))
          root root result =
        Huffman_decompress_loop (map (\<lambda>b. [b]) (concat (map (pathOf root) cs))) root root
          (result @ ch)"
    using assms(1) Cons.prems by (intro Huffman_decompress_loop_path) simp_all
  also have "\<dots> = (result @ ch) @ concat cs"
    using Cons.prems by (intro Cons.IH) simp
  finally show ?case by simp
qed

lemma encodeChar_pathOf:
  assumes "leafChar root = None" and "ch \<in> set (leaves root)"
  shows "encodeChar (buildEncodingMap (Some root)) ch = pathOf root ch"
  using assms pathOf_nonempty [OF assms]
  by (simp add: encodeChar_def buildEncodingMap_def traverse_apply nonEmptyCode_def)

lemma bits_latin1: "b \<in> {0x30, 0x31} \<Longrightarrow> b \<le> (0xFF :: jschar)"
  by auto

lemma codePoints_paths:
  "codePoints (concat (map (pathOf root) cs)) =
   map (\<lambda>b. [b]) (concat (map (pathOf root) cs))"
proof (rule codePoints_latin1)
  show "\<forall>c \<in> set (concat (map (pathOf root) cs)). c \<le> 0xFF"
    using pathOf_bits bits_latin1 by fastforce
qed

lemma count_list_pos_iff: "0 < count_list xs x \<longleftrightarrow> x \<in> set xs"
  using count_list_0_iff [of xs x] by auto

lemma same_counts_same_set:
  "\<forall>c. count_list xs c = count_list ys c \<Longrightarrow> set xs = set ys"
  by (metis count_list_pos_iff subsetI subset_antisym)

lemma root_not_leaf:
  assumes "\<forall>c. count_list (leaves root) c = count_list keys c"
    and "distinct keys" and "length keys \<ge> 2"
  shows "leafChar root = None"
proof (cases "leafChar root")
  case None
  then show ?thesis .
next
  case (Some ch)
  then have "set keys = {ch}"
    using same_counts_same_set [OF assms(1)] leaves_leaf [OF Some] by simp
  moreover obtain k1 k2 rest where "keys = k1 # k2 # rest"
    using assms(3) by (cases keys; cases "tl keys") auto
  ultimately show ?thesis using assms(2) by auto
qed

lemma Huffman_roundtrip_many:
  assumes "length (buildFrequencyMap s) \<ge> 2"
  shows "\<exists>r. Huffman_compress s = Inr r \<and>
             Huffman_decompress (compressed r) (tree r) = Inr s"
proof -
  let ?fm = "buildFrequencyMap s"
  let ?cs = "codePoints s"
  have ne: "s \<noteq> []"
    using assms by (auto simp: buildFrequencyMap_def)
  from buildHuffmanTree_result [OF assms] obtain root where
    built: "buildHuffmanTree ?fm = Inr (Some root)"
    and counts: "\<forall>c. count_list (leaves root) c = count_list (map fst ?fm) c"
    by blast
  have "length (map fst ?fm) \<ge> 2" using assms by simp
  then have inner: "leafChar root = None"
    by (rule root_not_leaf [OF counts distinct_buildFrequencyMap])
  have "set (leaves root) = set (map fst ?fm)"
    using counts by (rule same_counts_same_set)
  then have mem: "\<forall>ch \<in> set ?cs. ch \<in> set (leaves root)"
    using keys_buildFrequencyMap [of s] by simp
  let ?bits = "concat (map (encodeChar (buildEncodingMap (Some root))) ?cs)"
  have enc: "map (encodeChar (buildEncodingMap (Some root))) ?cs = map (pathOf root) ?cs"
    using mem inner by (simp add: encodeChar_pathOf)
  have cne: "?cs \<noteq> []" using ne by (simp add: codePoints_eq_Nil)
  then obtain c0 where c0: "c0 \<in> set ?cs" by (cases ?cs) auto
  then have "pathOf root c0 \<noteq> []" using mem inner by (intro pathOf_nonempty) simp_all
  then have bne: "?bits \<noteq> []" using c0 enc by auto
  have shape: "\<not> (\<exists>ch fr. ?fm = [(ch, fr)])" using assms by auto
  have comp: "Huffman_compress s =
      Inr \<lparr>compressed = ?bits, tree = Json root, originalCharForSingle = None\<rparr>"
    using ne built shape
    by (auto simp: Huffman_compress_def Let_def JSON_stringify_def split: list.splits prod.splits)
  have "Huffman_decompress_loop (codePoints ?bits) root root [] = [] @ concat ?cs"
    unfolding enc codePoints_paths using inner mem by (rule Huffman_decompress_loop_codes)
  then have "Huffman_decompress ?bits (Json root) = Inr s"
    using bne inner by (auto simp: Huffman_decompress_def JSON_parse_def concat_codePoints)
  then show ?thesis using comp by simp
qed

lemma Huffman_roundtrip_single:
  assumes "buildFrequencyMap s = [(ch, fr)]" and "length ch = 1" and "s \<noteq> []"
  shows "\<exists>r. Huffman_compress s = Inr r \<and>
             Huffman_decompress (compressed r) (tree r) = Inr s"
proof -
  let ?n = "length (codePoints s)"
  have cps: "codePoints s = replicate ?n ch"
    using assms(1) by (rule codePoints_of_single_key)
  have s: "s = concat (replicate ?n ch)"
    using concat_codePoints [of s] cps by simp
  obtain u where u: "ch = [u]"
    using assms(2) by (cases ch) auto
  have "concat (replicate n [u]) = replicate n u" for n
    by (induction n) simp_all
  then have len: "length s = ?n"
    using s u by (metis length_replicate)
  have "concat (replicate (length s) ch) = s"
    using s len by simp
  then show ?thesis
    using assms(1,3)
    by (simp add: Huffman_compress_def Huffman_decompress_def JSON_stringify_def
        JSON_parse_def leafChar_def)
qed

lemma Huffman_roundtrip:
  assumes "\<forall>ch. set (codePoints s) = {ch} \<longrightarrow> length ch = 1"
  shows "\<exists>r. Huffman_compress s = Inr r \<and>
             Huffman_decompress (compressed r) (tree r) = Inr s"
proof (cases "s = []")
  case True
  then show ?thesis by (simp add: Huffman_compress_def Huffman_decompress_def)
next
  case False
  then have "codePoints s \<noteq> []" by (simp add: codePoints_eq_Nil)
  then have fne: "buildFrequencyMap s \<noteq> []"
    using keys_buildFrequencyMap [of s] by auto
  show ?thesis
  proof (cases "length (buildFrequencyMap s) \<ge> 2")
    case True
    then show ?thesis by (rule Huffman_roundtrip_many)
  next
    case short: False
    with fne obtain ch fr where fm: "buildFrequencyMap s = [(ch, fr)]"
      by (cases "buildFrequencyMap s"; cases "tl (buildFrequencyMap s)") auto
    then have "set (codePoints s) = {ch}"
      using keys_buildFrequencyMap [of s] by simp
    then have "length ch = 1" using assms by blast
    with fm False show ?thesis by (intro Huffman_roundtrip_single)
  qed
qed

subsection \<open>The walk of the Huffman decoder\<close>

text \<open>
  \<open>Huffman_position bits root node\<close> is the node at which the decoder stands after the
  given bits, started at \<open>node\<close>, and \<open>None\<close> when one of the bits is not \<^verbatim>\<open>0\<close> or \<^verbatim>\<open>1\<close> or
  asks for a child that is missing.
\<close>

fun Huffman_position :: "jsstring list \<Rightarrow> HuffmanNode \<Rightarrow> HuffmanNode \<Rightarrow> HuffmanNode option" where
  "Huffman_position [] root currentNode = Some currentNode"
| "Huffman_position (b # rest) root currentNode =
     (case requiredChild currentNode b of
        None \<Rightarrow> None
      | Some node \<Rightarrow>
          Huffman_position rest root (case leafChar node of Some _ \<Rightarrow> root | None \<Rightarrow> node))"

lemma Huffman_decompress_loop_position:
  "Huffman_position pre root currentNode = Some cur \<Longrightarrow>
   \<exists>result'. Huffman_decompress_loop (pre @ rest) root currentNode result =
              Huffman_decompress_loop rest root cur result'"
proof (induction pre arbitrary: currentNode result)
  case Nil
  then show ?case by auto
next
  case (Cons b pre)
  then obtain node where n: "requiredChild currentNode b = Some node"
    and p: "Huffman_position pre root (case leafChar node of Some _ \<Rightarrow> root | None \<Rightarrow> node) = Some cur"
    by (auto split: option.splits)
  show ?case
  proof (cases "leafChar node")
    case None
    then show ?thesis using n p Cons.IH [of node result] by simp
  next
    case (Some ch)
    then show ?thesis using n p Cons.IH [of root "result @ ch"] by simp
  qed
qed

lemma Huffman_decompress_loop_malformed:
  assumes "Huffman_position pre root root = Some cur" and "requiredChild cur b = None"
  shows "Huffman_decompress_loop (pre @ b # post) root root [] = malformed"
proof -
  from Huffman_decompress_loop_position [OF assms(1), of "b # post" "[]"]
  obtain result' where "Huffman_decompress_loop (pre @ b # post) root root [] =
      Huffman_decompress_loop (b # post) root cur result'"
    by blast
  then show ?thesis using assms(2) by simp
qed

definition exampleTree :: HuffmanNode where
  "exampleTree =
     HuffmanNode None 3 (Some (HuffmanNode (Some (str ''a'')) 1 None None))
       (Some (HuffmanNode (Some (str ''b'')) 2 None None))"

definition leftOnlyTree :: HuffmanNode where
  "leftOnlyTree = HuffmanNode None 1 (Some (HuffmanNode (Some (str ''a'')) 1 None None)) None"

section \<open>Claims\<close>

text \<open>
  C1 (amended): decompressing the result of compressing a text returns the text, for
  run-length encoding when the text has no ASCII digit, for LZW when every code unit of
  the text is at most 255, and for Huffman coding (the tree string passed on unchanged)
  unless the text consists of one and the same surrogate pair, repeated: when the text has
  a single distinct code point, that code point is one code unit. The empty text and the
  texts of one repeated code unit are included.
\<close>

theorem codecs_roundtrip:
  "((\<forall>c \<in> set s. \<not> isDigit c) \<longrightarrow> RLE_decompress (RLE_compress s) = Inr s) \<and>
   ((\<forall>c \<in> set s. c \<le> 0xFF) \<longrightarrow> LZW_decompress (LZW_compress s) = Inr s) \<and>
   ((\<forall>ch. set (codePoints s) = {ch} \<longrightarrow> length ch = 1) \<longrightarrow>
      (\<exists>r. Huffman_compress s = Inr r \<and>
           Huffman_decompress (compressed r) (tree r) = Inr s))"
  using RLE_roundtrip_digit_free [of s] LZW_roundtrip_latin1 [of s] Huffman_roundtrip [of s]
  by blast

theorem codecs_roundtrip_witness:
  "list_all (\<lambda>c. \<not> isDigit c \<and> c \<le> 0xFF) (str ''abcaab'') \<and>
   [str ''a'', str ''b''] = take 2 (codePoints (str ''abcaab'')) \<and>
   RLE_decompress (RLE_compress (str ''abcaab'')) = Inr (str ''abcaab'') \<and>
   LZW_decompress (LZW_compress (str ''abcaab'')) = Inr (str ''abcaab'') \<and>
   (\<exists>r. Huffman_compress (str ''abcaab'') = Inr r \<and>
        Huffman_decompress (compressed r) (tree r) = Inr (str ''abcaab''))"
proof -
  have 1: "\<forall>c \<in> set (str ''abcaab''). \<not> isDigit c"
    by (simp add: str_def isDigit_def)
  have 2: "\<forall>c \<in> set (str ''abcaab''). c \<le> 0xFF"
    by (simp add: str_def)
  have cp: "codePoints (str ''abcaab'') = [[97], [98], [99], [97], [97], [98]]"
    by (simp add: str_def isHighSurrogate_def)
  have 3: "\<forall>ch. set (codePoints (str ''abcaab'')) = {ch} \<longrightarrow> length ch = 1"
    unfolding cp by auto
  have 4: "list_all (\<lambda>c. \<not> isDigit c \<and> c \<le> 0xFF) (str ''abcaab'')"
    by (simp add: str_def isDigit_def)
  have 5: "[str ''a'', str ''b''] = take 2 (codePoints (str ''abcaab''))"
    unfolding cp by (simp add: str_def)
  from codecs_roundtrip [of "str ''abcaab''"] 1 2 3 4 5 show ?thesis by blast
qed

text \<open>
  C1 as stated fails for each codec: \<^verbatim>\<open>"1"\<close> is run-length compressed to \<^verbatim>\<open>"1"\<close>, on which
  decompression throws; the text of the code unit \<open>0x100\<close> is LZW compressed to \<^verbatim>\<open>",256"\<close>,
  which is decompressed to three code units 0; the text of one surrogate pair is Huffman
  compressed to \<^verbatim>\<open>"00"\<close> (its length in code units) with a single leaf, which is
  decompressed to the pair twice.
\<close>

theorem codecs_roundtrip_counterexample:
  "RLE_compress (str ''1'') = str ''1'' \<and>
   RLE_decompress (str ''1'') = Inl EndsWithNumber \<and>
   LZW_compress [0x100] = str '',256'' \<and>
   LZW_decompress (str '',256'') = Inr [0, 0, 0] \<and>
   Huffman_compress [0xD83D, 0xDE00] =
     Inr \<lparr>compressed = str ''00'',
          tree = Json (HuffmanNode (Some [0xD83D, 0xDE00]) 1 None None),
          originalCharForSingle = Some [0xD83D, 0xDE00]\<rparr> \<and>
   Huffman_decompress (str ''00'') (Json (HuffmanNode (Some [0xD83D, 0xDE00]) 1 None None)) =
     Inr [0xD83D, 0xDE00, 0xD83D, 0xDE00]"
proof -
  have 1: "RLE_compress (str ''1'') = str ''1''"
    by (simp add: RLE_compress_def run_def str_def)
  have 2: "RLE_decompress (str ''1'') = Inl EndsWithNumber"
    by (simp add: RLE_decompress_def str_def isDigit_def)
  have 3: "LZW_compress [0x100] = str '',256''"
    by (simp add: Let_def LZW_compress_def LZW_compress_codes_def initialDictionary_apply
        render_def toString.simps digitChar_def comma_def str_def)
  have 4: "LZW_decompress (str '',256'') = Inr [0, 0, 0]"
    by (simp add: Let_def LZW_decompress_def LZW_decompress_codes_def str_def comma_def
        Number_def isDigit_def digitsValue_def digitVal_def phraseOf_def initialPhrases_apply
        charAt0_def)
  have 5: "Huffman_compress [0xD83D, 0xDE00] =
     Inr \<lparr>compressed = str ''00'',
          tree = Json (HuffmanNode (Some [0xD83D, 0xDE00]) 1 None None),
          originalCharForSingle = Some [0xD83D, 0xDE00]\<rparr>"
    by (simp add: Huffman_compress_def buildFrequencyMap_def isHighSurrogate_def
        isLowSurrogate_def JSON_stringify_def str_def)
  have 6: "Huffman_decompress (str ''00'')
             (Json (HuffmanNode (Some [0xD83D, 0xDE00]) 1 None None)) =
     Inr [0xD83D, 0xDE00, 0xD83D, 0xDE00]"
    by (simp add: Huffman_decompress_def JSON_parse_def leafChar_def str_def)
  show ?thesis using 1 2 3 4 5 6 by blast
qed

text \<open>
  C2: during LZW compression every phrase whose code is emitted is in the dictionary when
  it is looked up. The code breaks this on a text with a code point above 255: such a
  code point is not in the seed dictionary, so \<^verbatim>\<open>dictionary.get(currentPhrase)\<close> returns
  \<^verbatim>\<open>undefined\<close>, which is pushed and written as an empty piece between the commas. For
  the text of the one code unit \<open>0x100\<close> the lookup of the empty phrase fails inside the
  loop; for \<^verbatim>\<open>"A"\<close> followed by \<open>0x100\<close> the lookup of the pending phrase fails after it.
\<close>

theorem LZW_compress_pushes_undefined:
  "LZW_compress_codes [0x100] = [None, Some 256] \<and>
   LZW_compress [0x100] = str '',256'' \<and>
   LZW_compress_codes [0x41, 0x100] = [Some 65, None] \<and>
   LZW_compress [0x41, 0x100] = str ''65,''"
proof -
  have 1: "LZW_compress_codes [0x100] = [None, Some 256]"
    by (simp add: Let_def LZW_compress_codes_def initialDictionary_apply isHighSurrogate_def)
  have 2: "LZW_compress_codes [0x41, 0x100] = [Some 65, None]"
    by (simp add: Let_def LZW_compress_codes_def initialDictionary_apply isHighSurrogate_def)
  have 3: "joinCodes [None, Some 256] = str '',256''" "joinCodes [Some 65, None] = str ''65,''"
    by (simp_all add: render_def str_def toString.simps digitChar_def comma_def)
  show ?thesis using 1 2 3 by (simp add: LZW_compress_def)
qed

text \<open>
  C3 (amended): for a compressed string and a parsed tree whose root is not a single leaf,
  when the decoder, after bits it could follow, meets a character other than \<^verbatim>\<open>0\<close> and
  \<^verbatim>\<open>1\<close> or a bit whose child is missing, decompression stops there and returns the string
  \<^verbatim>\<open>"ERROR: Malformed data"\<close> as its result, in place of everything decoded before; it does
  not throw.
\<close>

theorem Huffman_decompress_returns_error_string:
  assumes "leafChar root = None"
    and "codePoints bits = pre @ b # post"
    and "Huffman_position pre root root = Some cur"
    and "requiredChild cur b = None"
  shows "Huffman_decompress bits (Json root) = Inr (str ''ERROR: Malformed data'')"
proof -
  have "bits \<noteq> []" using assms(2) by auto
  then show ?thesis
    using assms(1) Huffman_decompress_loop_malformed [OF assms(3,4), of post]
    by (simp add: Huffman_decompress_def JSON_parse_def assms(2) malformed_def)
qed

theorem Huffman_decompress_returns_error_string_witness:
  "leafChar exampleTree = None \<and>
   codePoints (str ''02'') = [str ''0''] @ str ''2'' # [] \<and>
   Huffman_position [str ''0''] exampleTree exampleTree = Some exampleTree \<and>
   requiredChild exampleTree (str ''2'') = None \<and>
   Huffman_decompress (str ''02'') (Json exampleTree) = Inr (str ''ERROR: Malformed data'')"
proof -
  have 1: "leafChar exampleTree = None"
    by (simp add: exampleTree_def leafChar_def)
  have 2: "codePoints (str ''02'') = [str ''0''] @ str ''2'' # []"
    by (simp add: str_def isHighSurrogate_def)
  have 3: "Huffman_position [str ''0''] exampleTree exampleTree = Some exampleTree"
    by (simp add: exampleTree_def requiredChild_def leafChar_def str_def)
  have 4: "requiredChild exampleTree (str ''2'') = None"
    by (simp add: requiredChild_def str_def)
  from Huffman_decompress_returns_error_string [OF 1 2 3 4] 1 2 3 4 show ?thesis by blast
qed

text \<open>
  C3 as stated fails: on the bit \<^verbatim>\<open>2\<close>, and on the bit \<^verbatim>\<open>1\<close> at a node without a right
  child, decompression returns normally, with the error text as the decompressed string.
\<close>

theorem Huffman_decompress_error_is_normal_return:
  "Huffman_decompress (str ''2'') (Json exampleTree) = Inr (str ''ERROR: Malformed data'') \<and>
   Huffman_decompress (str ''1'') (Json leftOnlyTree) = Inr (str ''ERROR: Malformed data'')"
  by (simp add: Huffman_decompress_def JSON_parse_def exampleTree_def leftOnlyTree_def
      leafChar_def requiredChild_def malformed_def str_def isHighSurrogate_def)

text \<open>
  C4 (amended): Huffman decompression with an empty (or absent) tree string returns the
  empty string as a normal result, for every compressed string; no error is raised.
\<close>

theorem Huffman_decompress_without_tree:
  "Huffman_decompress bits EmptyString = Inr []"
  by (simp add: Huffman_decompress_def)

theorem Huffman_decompress_without_tree_witness:
  "Huffman_decompress (str ''0110'') EmptyString = Inr []"
  using Huffman_decompress_without_tree [of "str ''0110''"] .

text \<open>
  C4 as stated fails: for the non-empty compressed string \<^verbatim>\<open>"0"\<close> and no tree,
  decompression returns the empty string normally.
\<close>

theorem Huffman_decompress_without_tree_counterexample:
  "str ''0'' \<noteq> [] \<and> Huffman_decompress (str ''0'') EmptyString = Inr []"
  by (simp add: Huffman_decompress_def str_def)

text \<open>
  C5: run-length decompression of any compressed string that ends in a digit (the
  count buffer is not empty when the input ends) fails with an error: no string is
  returned. In particular \<^verbatim>\<open>decompress("3A2")\<close> throws the error for a string that ends
  with a number, and does not return \<^verbatim>\<open>"AAA"\<close>.
\<close>

theorem RLE_decompress_trailing_count_fails:
  "(input \<noteq> [] \<and> isDigit (last input) \<longrightarrow>
      (\<exists>e. RLE_decompress input = Inl e)) \<and>
   RLE_decompress (str ''3A2'') = Inl EndsWithNumber"
proof
  show "input \<noteq> [] \<and> isDigit (last input) \<longrightarrow>
      (\<exists>e. RLE_decompress input = Inl e)"
    using RLE_decompress_loop_pending [where xs = input and buf = "[]" and result = "[]"]
    by (simp add: RLE_decompress_def)
  show "RLE_decompress (str ''3A2'') = Inl EndsWithNumber"
    by (simp add: RLE_decompress_def str_def isDigit_def parseInt_def digitsValue_def
        digitVal_def)
qed

theorem RLE_decompress_trailing_count_fails_witness:
  "str ''A12'' \<noteq> [] \<and> isDigit (last (str ''A12'')) \<and>
   (\<exists>e. RLE_decompress (str ''A12'') = Inl e) \<and>
   RLE_decompress (str ''A12'') \<noteq> Inr (str ''A'')"
proof -
  have h: "str ''A12'' \<noteq> [] \<and> isDigit (last (str ''A12''))"
    by (simp add: str_def isDigit_def)
  from RLE_decompress_trailing_count_fails [of "str ''A12''"] h
  have "\<exists>e. RLE_decompress (str ''A12'') = Inl e" by blast
  with h show ?thesis by auto
qed

text \<open>
  C6: when the LZW decoder has read a non-empty sequence of codes without an error and
  holds the dictionary \<open>E\<close>, the next free code \<open>m\<close>, the output \<open>res\<close> and the
  previous phrase \<open>prev\<close>, the keys of \<open>E\<close> are the codes below \<open>m\<close>, and for the next
  code: a code in the dictionary is decoded to its phrase; the code \<open>m\<close> itself is decoded
  to \<open>prev\<close> followed by the first code unit of \<open>prev\<close>, without an error; every other
  number makes the decompression throw, whatever follows, and so does \<^verbatim>\<open>decompress\<close> on a
  string that is split into these numbers, when every piece of the string between the
  commas is empty or consists of decimal digits (the pieces on which \<^verbatim>\<open>Number\<close> is
  modelled).
\<close>

theorem LZW_decompress_next_code:
  assumes "LZW_decompress_codes pre = Inr (E, m, res, prev)"
  shows "(\<forall>k. (E k \<noteq> None) = (k < m)) \<and>
    (\<forall>k entry. E k = Some entry \<longrightarrow>
       LZW_decompress_codes (pre @ [Code k]) =
         Inr (E(m \<mapsto> prev @ [hd entry]), m + 1, res @ entry, entry)) \<and>
    LZW_decompress_codes (pre @ [Code m]) =
      Inr (E(m \<mapsto> prev @ [hd prev]), m + 1, res @ prev @ [hd prev], prev @ [hd prev]) \<and>
    (\<forall>c post. phraseOf E c = None \<and> c \<noteq> Code m \<longrightarrow>
       LZW_decompress_codes (pre @ c # post) = Inl CodeOutOfBounds \<and>
       (\<forall>input. input \<noteq> [] \<and> digitPieces input \<and>
            map Number (split comma input) = pre @ c # post \<longrightarrow>
          LZW_decompress input = Inl CodeOutOfBounds))"
proof -
  have ok: "decoder_ok E m prev" using assms by (rule decoder_ok_codes)
  then have prev: "prev \<noteq> []" and keys: "\<And>k. (E k \<noteq> None) = (k < m)"
    and phrases: "\<And>k s. E k = Some s \<Longrightarrow> s \<noteq> []"
    unfolding decoder_ok_def by blast+
  have a: "\<forall>k. (E k \<noteq> None) = (k < m)" using keys by blast
  have b: "LZW_decompress_codes (pre @ [Code k]) =
         Inr (E(m \<mapsto> prev @ [hd entry]), m + 1, res @ entry, entry)"
    if "E k = Some entry" for k entry
    using that phrases [OF that]
    by (simp add: LZW_decompress_codes_append [OF assms] phraseOf_def charAt0_nonempty)
  have none: "E m = None" using keys [of m] by simp
  have c: "LZW_decompress_codes (pre @ [Code m]) =
      Inr (E(m \<mapsto> prev @ [hd prev]), m + 1, res @ prev @ [hd prev], prev @ [hd prev])"
    using none prev
    by (simp add: LZW_decompress_codes_append [OF assms] phraseOf_def charAt0_nonempty Let_def)
  have d: "LZW_decompress_codes (pre @ c # post) = Inl CodeOutOfBounds"
    if "phraseOf E c = None \<and> c \<noteq> Code m" for c post
    using that by (simp add: LZW_decompress_codes_append [OF assms])
  have e: "LZW_decompress input = Inl CodeOutOfBounds"
    if "phraseOf E c = None \<and> c \<noteq> Code m"
      and "input \<noteq> [] \<and> digitPieces input \<and>
           map Number (split comma input) = pre @ c # post" for c post input
    using d [OF that(1), of post] that(2) by (simp add: LZW_decompress_def)
  show ?thesis using a b c d e by blast
qed

theorem LZW_decompress_next_code_witness:
  "LZW_decompress_codes [Code 65, Code 66] =
     Inr (initialPhrases(256 \<mapsto> [65, 66]), 257, [65, 66], [66]) \<and>
   LZW_decompress_codes ([Code 65, Code 66] @ [Code 256]) =
     Inr (initialPhrases(256 \<mapsto> [65, 66], 257 \<mapsto> [66, 65]), 258, [65, 66, 65, 66], [65, 66]) \<and>
   LZW_decompress_codes ([Code 65, Code 66] @ [Code 257]) =
     Inr (initialPhrases(256 \<mapsto> [65, 66], 257 \<mapsto> [66, 66]), 258, [65, 66, 66, 66], [66, 66]) \<and>
   LZW_decompress_codes ([Code 65, Code 66] @ Code 258 # [Code 65]) = Inl CodeOutOfBounds \<and>
   LZW_decompress_codes ([Code 65, Code 66] @ Other # []) = Inl CodeOutOfBounds \<and>
   digitPieces (str ''65,66,258,65'') \<and>
   map Number (split comma (str ''65,66,258,65'')) = [Code 65, Code 66] @ Code 258 # [Code 65] \<and>
   LZW_decompress (str ''65,66,258,65'') = Inl CodeOutOfBounds"
proof -
  have h: "LZW_decompress_codes [Code 65, Code 66] =
     Inr (initialPhrases(256 \<mapsto> [65, 66]), 257, [65, 66], [66])"
    by (simp add: LZW_decompress_codes_def phraseOf_def initialPhrases_apply charAt0_def)
  have e: "(initialPhrases(256 \<mapsto> [65, 66])) 256 = Some [65, 66]" by simp
  have n1: "phraseOf (initialPhrases(256 \<mapsto> [65, 66])) (Code 258) = None \<and> Code 258 \<noteq> Code 257"
    by (simp add: phraseOf_def initialPhrases_apply)
  have n2: "phraseOf (initialPhrases(256 \<mapsto> [65, 66])) Other = None \<and> Other \<noteq> Code 257"
    by (simp add: phraseOf_def)
  have s: "str ''65,66,258,65'' \<noteq> [] \<and> digitPieces (str ''65,66,258,65'') \<and>
      map Number (split comma (str ''65,66,258,65'')) = [Code 65, Code 66] @ Code 258 # [Code 65]"
    by (simp add: str_def comma_def Number_def digitPieces_def isDigit_def digitsValue_def
        digitVal_def)
  note known = LZW_decompress_next_code [OF h, THEN conjunct2, THEN conjunct1, rule_format]
  note self = LZW_decompress_next_code [OF h, THEN conjunct2, THEN conjunct2, THEN conjunct1]
  note other = LZW_decompress_next_code [OF h, THEN conjunct2, THEN conjunct2, THEN conjunct2,
      rule_format]
  have w1: "LZW_decompress_codes ([Code 65, Code 66] @ [Code 256]) =
     Inr (initialPhrases(256 \<mapsto> [65, 66], 257 \<mapsto> [66, 65]), 258, [65, 66, 65, 66], [65, 66])"
    using known [OF e] by simp
  have w2: "LZW_decompress_codes ([Code 65, Code 66] @ [Code 257]) =
     Inr (initialPhrases(256 \<mapsto> [65, 66], 257 \<mapsto> [66, 66]), 258, [65, 66, 66, 66], [66, 66])"
    using self by simp
  have w3: "LZW_decompress_codes ([Code 65, Code 66] @ Code 258 # [Code 65]) = Inl CodeOutOfBounds"
    using other [OF n1, THEN conjunct1] .
  have w4: "LZW_decompress_codes ([Code 65, Code 66] @ Other # []) = Inl CodeOutOfBounds"
    using other [OF n2, THEN conjunct1] .
  have w5: "LZW_decompress (str ''65,66,258,65'') = Inl CodeOutOfBounds"
    using other [OF n1, THEN conjunct2, rule_format, OF s] .
  show ?thesis
    by (intro conjI)
      (rule h w1 w2 w3 w4 w5 s [THEN conjunct2, THEN conjunct1]
         s [THEN conjunct2, THEN conjunct2])+
qed

text \<open>
  C7: when all code points of a non-empty text are the same, Huffman compression returns
  the tree of a single leaf with that code point and the number of its occurrences, and
  the payload \<^verbatim>\<open>"0"\<close> repeated \<^verbatim>\<open>text.length\<close> times (the length in UTF-16 code units);
  decompression with a single-leaf tree returns the leaf's character once for each code
  unit of the compressed string; \<^verbatim>\<open>compress("zzzz")\<close> has a payload of length 4 and the
  leaf \<^verbatim>\<open>z\<close>, and decompressing that pair returns \<^verbatim>\<open>"zzzz"\<close>.
\<close>

theorem Huffman_single_character:
  "(codePoints s = replicate n ch \<and> n > 0 \<longrightarrow>
      Huffman_compress s =
        Inr \<lparr>compressed = replicate (length s) 0x30,
             tree = Json (HuffmanNode (Some ch) n None None),
             originalCharForSingle = Some ch\<rparr>) \<and>
   Huffman_decompress bits (Json (HuffmanNode (Some ch) fr None None)) =
     Inr (concat (replicate (length bits) ch)) \<and>
   Huffman_compress (str ''zzzz'') =
     Inr \<lparr>compressed = str ''0000'',
          tree = Json (HuffmanNode (Some (str ''z'')) 4 None None),
          originalCharForSingle = Some (str ''z'')\<rparr> \<and>
   length (str ''0000'') = 4 \<and>
   Huffman_decompress (str ''0000'') (Json (HuffmanNode (Some (str ''z'')) 4 None None)) =
     Inr (str ''zzzz'')"
proof -
  have a: "Huffman_compress s =
        Inr \<lparr>compressed = replicate (length s) 0x30,
             tree = Json (HuffmanNode (Some ch) n None None),
             originalCharForSingle = Some ch\<rparr>"
    if "codePoints s = replicate n ch \<and> n > 0"
  proof -
    have "buildFrequencyMap s = [(ch, n)]"
      using that by (intro buildFrequencyMap_single) simp_all
    moreover have "s \<noteq> []" using that by (cases s) auto
    ultimately show ?thesis
      by (simp add: Huffman_compress_def JSON_stringify_def)
  qed
  have b: "Huffman_decompress bits (Json (HuffmanNode (Some ch) fr None None)) =
     Inr (concat (replicate (length bits) ch))" for bits ch fr
    by (simp add: Huffman_decompress_def JSON_parse_def leafChar_def)
  have rep4: "replicate 4 x = [x, x, x, x]" for x :: jsstring
    by (simp add: numeral_eq_Suc)
  have z: "codePoints (str ''zzzz'') = replicate 4 (str ''z'') \<and> (4::nat) > 0"
    unfolding rep4 by (simp add: str_def isHighSurrogate_def)
  have c: "Huffman_compress (str ''zzzz'') =
     Inr \<lparr>compressed = str ''0000'',
          tree = Json (HuffmanNode (Some (str ''z'')) 4 None None),
          originalCharForSingle = Some (str ''z'')\<rparr>"
  proof -
    have "buildFrequencyMap (str ''zzzz'') = [(str ''z'', 4)]"
      using z by (intro buildFrequencyMap_single) simp_all
    then show ?thesis
      by (simp add: Huffman_compress_def JSON_stringify_def) (simp add: str_def)
  qed
  have d: "Huffman_decompress (str ''0000'') (Json (HuffmanNode (Some (str ''z'')) 4 None None)) =
     Inr (str ''zzzz'')"
    unfolding b by (simp add: str_def)
  have e: "length (str ''0000'') = 4" by (simp add: str_def)
  show ?thesis using a b c d e by blast
qed

theorem Huffman_single_character_witness:
  "codePoints [0xD83D, 0xDE00, 0xD83D, 0xDE00] = replicate 2 [0xD83D, 0xDE00] \<and>
   (0 :: nat) < 2 \<and>
   Huffman_compress [0xD83D, 0xDE00, 0xD83D, 0xDE00] =
     Inr \<lparr>compressed = str ''0000'',
          tree = Json (HuffmanNode (Some [0xD83D, 0xDE00]) 2 None None),
          originalCharForSingle = Some [0xD83D, 0xDE00]\<rparr>"
proof -
  have rep2: "replicate 2 x = [x, x]" for x :: jsstring
    by (simp add: numeral_2_eq_2)
  have h: "codePoints [0xD83D, 0xDE00, 0xD83D, 0xDE00] = replicate 2 [0xD83D, 0xDE00] \<and>
           (0 :: nat) < 2"
    unfolding rep2 by (simp add: isHighSurrogate_def isLowSurrogate_def)
  have "replicate (length [0xD83D, 0xDE00, 0xD83D, 0xDE00 :: jschar]) (0x30 :: jschar) = str ''0000''"
    by (simp add: str_def)
  with Huffman_single_character [of "[0xD83D, 0xDE00, 0xD83D, 0xDE00]" 2 "[0xD83D, 0xDE00]"] h
  show ?thesis by simp
qed

text \<open>
  C8: \<^verbatim>\<open>compress("ABABABA")\<close> is \<^verbatim>\<open>"65,66,256,258"\<close>: the phrase \<^verbatim>\<open>"AB"\<close> gets the first free
  code 256 when it is first seen, at its first repeat it is found in the dictionary and
  becomes the pending phrase. \<^verbatim>\<open>decompress("65,66,256,258")\<close> is \<^verbatim>\<open>"ABABABA"\<close>, and the last
  code is decoded by the branch for the next free code: after 65, 66, 256 the decoder's
  next free code is 258 and its dictionary has no entry for it.
\<close>

theorem LZW_example_ABABABA:
  "LZW_compress_codes (str ''ABABABA'') = [Some 65, Some 66, Some 256, Some 258] \<and>
   LZW_compress (str ''ABABABA'') = str ''65,66,256,258'' \<and>
   (case LZW_compress_loop (codePoints (str ''AB'')) initialDictionary 256 [] [] of
      (D, n, out, w) \<Rightarrow> D (str ''AB'') = Some 256 \<and> n = 257 \<and> out = [Some 65] \<and> w = str ''B'') \<and>
   (case LZW_compress_loop (codePoints (str ''ABAB'')) initialDictionary 256 [] [] of
      (D, n, out, w) \<Rightarrow> w = str ''AB'' \<and> D w = Some 256 \<and> out = [Some 65, Some 66]) \<and>
   LZW_decompress (str ''65,66,256,258'') = Inr (str ''ABABABA'') \<and>
   (case LZW_decompress_codes [Code 65, Code 66, Code 256] of
      Inl e \<Rightarrow> False
    | Inr (E, m, res, prev) \<Rightarrow>
        m = 258 \<and> phraseOf E (Code 258) = None \<and> res = str ''ABAB'' \<and> prev = str ''AB'')"
proof -
  have 1: "LZW_compress_codes (str ''ABABABA'') = [Some 65, Some 66, Some 256, Some 258]"
    by (simp add: Let_def LZW_compress_codes_def str_def initialDictionary_apply
        isHighSurrogate_def)
  have 2: "joinCodes [Some 65, Some 66, Some 256, Some 258] = str ''65,66,256,258''"
    by (simp add: render_def str_def toString.simps digitChar_def comma_def)
  have 3: "case LZW_compress_loop (codePoints (str ''AB'')) initialDictionary 256 [] [] of
      (D, n, out, w) \<Rightarrow> D (str ''AB'') = Some 256 \<and> n = 257 \<and> out = [Some 65] \<and> w = str ''B''"
    by (simp add: Let_def str_def initialDictionary_apply isHighSurrogate_def)
  have 4: "case LZW_compress_loop (codePoints (str ''ABAB'')) initialDictionary 256 [] [] of
      (D, n, out, w) \<Rightarrow> w = str ''AB'' \<and> D w = Some 256 \<and> out = [Some 65, Some 66]"
    by (simp add: Let_def str_def initialDictionary_apply isHighSurrogate_def)
  have 5: "map Number (split comma (str ''65,66,256,258'')) =
           [Code 65, Code 66, Code 256, Code 258]"
    by (simp add: str_def comma_def Number_def isDigit_def digitsValue_def digitVal_def)
  have 6: "LZW_decompress_codes [Code 65, Code 66, Code 256, Code 258] =
           Inr (initialPhrases(256 \<mapsto> [65, 66], 257 \<mapsto> [66, 65], 258 \<mapsto> [65, 66, 65]), 259,
                str ''ABABABA'', [65, 66, 65])"
    by (simp add: Let_def LZW_decompress_codes_def phraseOf_def initialPhrases_apply
        charAt0_def str_def)
  have 7: "LZW_decompress_codes [Code 65, Code 66, Code 256] =
           Inr (initialPhrases(256 \<mapsto> [65, 66], 257 \<mapsto> [66, 65]), 258, str ''ABAB'', str ''AB'')"
    by (simp add: Let_def LZW_decompress_codes_def phraseOf_def initialPhrases_apply
        charAt0_def str_def)
  have 8: "str ''65,66,256,258'' \<noteq> []" "str ''ABABABA'' \<noteq> []"
    by (simp_all add: str_def)
  have c: "LZW_compress (str ''ABABABA'') = str ''65,66,256,258''"
    using 1 2 8 by (simp add: LZW_compress_def)
  have d: "LZW_decompress (str ''65,66,256,258'') = Inr (str ''ABABABA'')"
    using 5 6 8 by (simp add: LZW_decompress_def)
  have e: "case LZW_decompress_codes [Code 65, Code 66, Code 256] of
      Inl e \<Rightarrow> False
    | Inr (E, m, res, prev) \<Rightarrow>
        m = 258 \<and> phraseOf E (Code 258) = None \<and> res = str ''ABAB'' \<and> prev = str ''AB''"
    unfolding 7 by (simp add: phraseOf_def initialPhrases_apply)
  show ?thesis using 1 c 3 4 d e by blast
qed

text \<open>
  C9: each codec compresses the empty string to the empty string (Huffman: with the
  empty tree string) and decompresses the empty string to the empty string without an
  error (Huffman: with the empty tree string, and with any other).
\<close>

theorem codecs_on_empty_input:
  "RLE_compress [] = [] \<and> RLE_decompress [] = Inr [] \<and>
   LZW_compress [] = [] \<and> LZW_decompress [] = Inr [] \<and>
   Huffman_compress [] =
     Inr \<lparr>compressed = [], tree = EmptyString, originalCharForSingle = None\<rparr> \<and>
   Huffman_decompress [] EmptyString = Inr [] \<and>
   Huffman_decompress [] treeStr = Inr []"
  by (simp add: RLE_compress_def RLE_decompress_def LZW_compress_def LZW_decompress_def
      Huffman_compress_def Huffman_decompress_def)

theorem codecs_on_empty_input_witness:
  "Huffman_decompress [] (Json (HuffmanNode (Some [122]) 4 None None)) = Inr [] \<and>
   Huffman_decompress [] NotJson = Inr []"
  using codecs_on_empty_input [of "Json (HuffmanNode (Some [122]) 4 None None)"]
    codecs_on_empty_input [of NotJson]
  by simp

text \<open>
  C10: for every text that contains no ASCII digit, run-length decompression of the
  run-length compression of the text returns the text.
\<close>

theorem RLE_roundtrip_without_digits:
  "\<forall>c \<in> set text. \<not> isDigit c \<Longrightarrow> RLE_decompress (RLE_compress text) = Inr text"
  by (rule RLE_roundtrip_digit_free)

theorem RLE_roundtrip_without_digits_witness:
  "(\<exists>c. c \<in> set (str ''AAABBC'') \<and> \<not> isDigit c) \<and>
   RLE_compress (str ''AAABBC'') = str ''3A2BC'' \<and>
   RLE_decompress (RLE_compress (str ''AAABBC'')) = Inr (str ''AAABBC'')"
proof -
  have h: "\<forall>c \<in> set (str ''AAABBC''). \<not> isDigit c"
    by (simp add: str_def isDigit_def)
  have c: "RLE_compress (str ''AAABBC'') = str ''3A2BC''"
    by (simp add: RLE_compress_def str_def run_def toString.simps digitChar_def)
  have e: "\<exists>c. c \<in> set (str ''AAABBC'') \<and> \<not> isDigit c"
    by (rule exI [of _ 65]) (simp add: str_def isDigit_def)
  from RLE_roundtrip_without_digits [OF h] c e show ?thesis by simp
qed

end
